theory Spec2Isabelle
  imports Main
begin

section \<open>The WebSocket connection the adapter is given\<close>

text \<open>
  \<^verbatim>\<open>rwc.go\<close> adapts a \<^verbatim>\<open>*websocket.Conn\<close> to an \<^verbatim>\<open>io.ReadWriteCloser\<close>. The connection,
  the \<^verbatim>\<open>io.Reader\<close> it hands out for an inbound message and the \<^verbatim>\<open>io.WriteCloser\<close> it hands
  out for an outbound one belong to the WebSocket library, not to this package. They are
  modelled as a store of objects whose answers are scripted: the value of type \<open>conn\<close> fixes
  what each future call on the connection returns, so a statement about every \<open>conn\<close> is a
  statement about every behaviour of the library that a finite script can describe. Every
  call into the library appends an event to \<open>trace\<close>, hence an operation that leaves the
  \<open>conn\<close> value unchanged made no call at all. The event of a \<^verbatim>\<open>Read\<close> on a message reader
  records the handle, the room offered, the bytes returned and the error returned.
\<close>

type_synonym byte = char

datatype error = ErrClosedPipe | EOF | ErrWriteClosed | ErrTransport nat

datatype message_type = TextMessage | BinaryMessage

text \<open>
  A message reader is the list of answers it still has to give: each answer is a chunk of
  bytes and the error returned together with the last byte of the chunk.
\<close>

type_synonym reader_script = "(byte list \<times> error option) list"

text \<open>
  A message writer accepts, at each call, at most the scripted number of bytes and returns
  the scripted error; once its script is used up it accepts whatever it is given. It
  remembers the first error a \<^verbatim>\<open>Write\<close> of it returned, in \<open>mw_err\<close>.
\<close>

type_synonym writer_script = "(nat \<times> error option) list"

record message_writer =
  mw_type :: message_type
  mw_script :: writer_script
  mw_close :: "error option"
  mw_buf :: "byte list"
  mw_err :: "error option"

datatype next_reader = NextReaderErr error | NextReaderOk reader_script

datatype next_writer = NextWriterErr error | NextWriterOk writer_script "error option"

datatype event =
    EvNextReader
  | EvRead nat nat "byte list" "error option"
  | EvNextWriter message_type
  | EvWrite nat "byte list"
  | EvWriterClose nat
  | EvConnClose

record conn =
  inbound :: "next_reader list"
  outbound :: "next_writer list"
  close_result :: "error option"
  readers :: "nat \<rightharpoonup> reader_script"
  writers :: "nat \<rightharpoonup> message_writer"
  fresh :: nat
  sent :: "(message_type \<times> byte list) list"
  trace :: "event list"
  latch :: bool

text \<open>
  \<open>latch\<close> says whether the library's writers keep their first error, as the writers of
  \<^verbatim>\<open>github.com/gorilla/websocket\<close> do: such a writer, once a \<^verbatim>\<open>Write\<close> of it has failed,
  takes nothing at any later \<^verbatim>\<open>Write\<close> and returns that error again, and its \<^verbatim>\<open>Close\<close>
  returns that error and sends nothing. Without \<open>latch\<close> a writer goes on with its script
  after an error.
\<close>

text \<open>The error \<^verbatim>\<open>NextReader\<close> gives once the peer has no further message (close code 1006).\<close>

definition errAbnormalClosure :: error where
  "errAbnormalClosure = ErrTransport 1006"

text \<open>\<^verbatim>\<open>ws.NextReader()\<close>: the next scripted answer; a new reader gets a fresh handle.\<close>

definition conn_NextReader :: "conn \<Rightarrow> (error + nat) \<times> conn" where
  "conn_NextReader wd =
     (let wd1 = wd\<lparr>trace := trace wd @ [EvNextReader]\<rparr> in
      case inbound wd of
        [] \<Rightarrow> (Inl errAbnormalClosure, wd1)
      | NextReaderErr e # rest \<Rightarrow> (Inl e, wd1\<lparr>inbound := rest\<rparr>)
      | NextReaderOk sc # rest \<Rightarrow>
          (Inr (fresh wd),
           wd1\<lparr>inbound := rest, readers := (readers wd)(fresh wd \<mapsto> sc),
                fresh := Suc (fresh wd)\<rparr>))"

text \<open>
  One \<^verbatim>\<open>Read\<close> on a message reader with room for \<open>k\<close> bytes: never more than \<open>k\<close> bytes;
  a chunk that does not fit is cut and its error is kept for the call that takes its last
  byte. A reader with nothing left to say answers \<^verbatim>\<open>(0, io.EOF)\<close>.
\<close>

fun script_Read :: "reader_script \<Rightarrow> nat \<Rightarrow> byte list \<times> error option \<times> reader_script" where
  "script_Read [] k = ([], Some EOF, [])"
| "script_Read ((bs, e) # rest) k =
     (if length bs \<le> k then (bs, e, rest)
      else (take k bs, None, (drop k bs, e) # rest))"

definition reader_script_of :: "conn \<Rightarrow> nat \<Rightarrow> reader_script" where
  "reader_script_of wd h = (case readers wd h of None \<Rightarrow> [] | Some sc \<Rightarrow> sc)"

text \<open>\<^verbatim>\<open>r.Read(b)\<close> with \<open>k = len(b)\<close>, on the reader with handle \<open>h\<close>.\<close>

definition reader_Read :: "nat \<Rightarrow> nat \<Rightarrow> conn \<Rightarrow> (byte list \<times> error option) \<times> conn" where
  "reader_Read h k wd =
     (case script_Read (reader_script_of wd h) k of
        (bs, e, sc') \<Rightarrow>
          ((bs, e), wd\<lparr>readers := (readers wd)(h \<mapsto> sc'), trace := trace wd @ [EvRead h k bs e]\<rparr>))"

text \<open>\<^verbatim>\<open>ws.NextWriter(t)\<close>: the next scripted answer; a connection whose script is used up
  hands out writers that never fail.\<close>

definition conn_NextWriter :: "message_type \<Rightarrow> conn \<Rightarrow> (error + nat) \<times> conn" where
  "conn_NextWriter t wd =
     (let wd1 = wd\<lparr>trace := trace wd @ [EvNextWriter t]\<rparr>;
          new = (\<lambda>sc ce rest.
            (Inr (fresh wd),
             wd1\<lparr>outbound := rest,
                  writers := (writers wd)(fresh wd \<mapsto>
                     \<lparr>mw_type = t, mw_script = sc, mw_close = ce, mw_buf = [],
                       mw_err = None\<rparr>),
                  fresh := Suc (fresh wd)\<rparr>)) in
      case outbound wd of
        [] \<Rightarrow> new [] None []
      | NextWriterErr e # rest \<Rightarrow> (Inl e, wd1\<lparr>outbound := rest\<rparr>)
      | NextWriterOk sc ce # rest \<Rightarrow> new sc ce rest)"

text \<open>
  \<^verbatim>\<open>w.Write(b)\<close> on the writer with handle \<open>h\<close>: the count of bytes taken and the error.
  A writer that was closed already takes nothing and fails.
\<close>

definition writer_Write :: "nat \<Rightarrow> byte list \<Rightarrow> conn \<Rightarrow> (nat \<times> error option) \<times> conn" where
  "writer_Write h b wd =
     (let wd1 = wd\<lparr>trace := trace wd @ [EvWrite h b]\<rparr> in
      case writers wd h of
        None \<Rightarrow> ((0, Some ErrWriteClosed), wd1)
      | Some mw \<Rightarrow>
          if latch wd \<and> mw_err mw \<noteq> None then ((0, mw_err mw), wd1)
          else
            (case mw_script mw of
               [] \<Rightarrow> ((length b, None),
                      wd1\<lparr>writers := (writers wd)(h \<mapsto> mw\<lparr>mw_buf := mw_buf mw @ b\<rparr>)\<rparr>)
             | (a, e) # rest \<Rightarrow>
                 ((min a (length b), e),
                  wd1\<lparr>writers := (writers wd)(h \<mapsto>
                     mw\<lparr>mw_script := rest, mw_buf := mw_buf mw @ take a b,
                        mw_err := (if mw_err mw = None then e else mw_err mw)\<rparr>)\<rparr>)))"

text \<open>
  \<^verbatim>\<open>w.Close()\<close>: the writer is gone afterwards; when closing succeeds, the bytes it took
  are one message on the wire. The result is the scripted one, or the error the writer
  has kept.
\<close>

definition writer_Close :: "nat \<Rightarrow> conn \<Rightarrow> error option \<times> conn" where
  "writer_Close h wd =
     (let wd1 = wd\<lparr>trace := trace wd @ [EvWriterClose h]\<rparr> in
      case writers wd h of
        None \<Rightarrow> (Some ErrWriteClosed, wd1)
      | Some mw \<Rightarrow>
          (let res = (if latch wd \<and> mw_err mw \<noteq> None then mw_err mw else mw_close mw) in
           (res,
            wd1\<lparr>writers := (writers wd)(h := None),
                 sent := (if res = None then sent wd @ [(mw_type mw, mw_buf mw)]
                          else sent wd)\<rparr>)))"

text \<open>\<^verbatim>\<open>ws.Close()\<close>.\<close>

definition conn_Close :: "conn \<Rightarrow> error option \<times> conn" where
  "conn_Close wd = (close_result wd, wd\<lparr>trace := trace wd @ [EvConnClose]\<rparr>)"

section \<open>The adapter\<close>

text \<open>
  \<^verbatim>\<open>type ReadWriteCloser struct { mu sync.Mutex; ws *websocket.Conn; r io.Reader; w io.WriteCloser }\<close>.
  A nil field is \<open>None\<close>; \<open>rwc_r\<close> and \<open>rwc_w\<close> hold handles into the store, so that the
  comparisons \<^verbatim>\<open>rwc.r == r\<close> and \<^verbatim>\<open>rwc.w == w\<close> are comparisons of handles. Each method is
  modelled as running alone from its first line to its return; the mutex has no state of
  its own in such a run. The regions a method executes with the mutex held are the
  definitions \<open>Read_store\<close>, \<open>Read_clear\<close>, \<open>Write_store\<close>, \<open>Write_clear\<close> and \<open>Close_take\<close>:
  they are the only places where a field is assigned.
\<close>

datatype conn_ref = TheConn

record rwc =
  rwc_ws :: "conn_ref option"
  rwc_r :: "nat option"
  rwc_w :: "nat option"

definition NewReadWriteCloser :: "conn_ref option \<Rightarrow> rwc" where
  "NewReadWriteCloser ws = \<lparr>rwc_ws = ws, rwc_r = None, rwc_w = None\<rparr>"

subsection \<open>Read\<close>

text \<open>Lines 44-50: store the new reader unless the adapter was closed meanwhile.\<close>

definition Read_store :: "nat \<Rightarrow> rwc \<Rightarrow> bool \<times> rwc" where
  "Read_store h s = (if rwc_ws s = None then (False, s) else (True, s\<lparr>rwc_r := Some h\<rparr>))"

text \<open>Lines 59-63: forget the reader if it is still the current one.\<close>

definition Read_clear :: "nat \<Rightarrow> rwc \<Rightarrow> rwc" where
  "Read_clear h s = (if rwc_r s = Some h then s\<lparr>rwc_r := None\<rparr> else s)"

text \<open>\<^verbatim>\<open>p[n:]\<close> receives the bytes \<open>bs\<close>, where \<open>length bs \<le> length p - n\<close>.\<close>

definition fill :: "byte list \<Rightarrow> nat \<Rightarrow> byte list \<Rightarrow> byte list" where
  "fill p n bs = take n p @ bs @ drop (n + length bs) p"

text \<open>
  Lines 53-69, the loop \<^verbatim>\<open>for n = 0; n < len(p); { ... }\<close> entered with \<open>n\<close>. The result is
  \<open>n\<close>, the value of the named result \<open>err\<close> and the buffer when the loop is left. \<open>n\<close> is a
  Go \<^verbatim>\<open>int\<close>; it never exceeds \<open>length p\<close>, so it is a \<open>nat\<close> here.
\<close>

definition script_weight :: "reader_script \<Rightarrow> nat" where
  "script_weight sc = sum_list (map (\<lambda>(bs, e). Suc (length bs)) sc)"

function Read_loop ::
  "nat \<Rightarrow> nat \<Rightarrow> byte list \<Rightarrow> rwc \<Rightarrow> conn \<Rightarrow> (nat \<times> error option \<times> byte list) \<times> rwc \<times> conn" where
  "Read_loop h n p s wd =
     (if n < length p then
        (case reader_Read h (length p - n) wd of
           ((bs, err), wd1) \<Rightarrow>
             if err = Some EOF then ((n + length bs, err, fill p n bs), Read_clear h s, wd1)
             else if err \<noteq> None then ((n + length bs, err, fill p n bs), s, wd1)
             else Read_loop h (n + length bs) (fill p n bs) s wd1)
      else ((n, None, p), s, wd))"
  by pat_completeness auto


lemma script_Read_weight:
  "script_Read sc k = (bs, None, sc') \<Longrightarrow> 0 < k \<Longrightarrow> script_weight sc' < script_weight sc"
  by (cases sc) (auto simp: script_weight_def split: if_splits)

lemma reader_script_of_Read:
  "reader_Read h k wd = ((bs, e), wd1) \<Longrightarrow>
   script_Read (reader_script_of wd h) k = (bs, e, reader_script_of wd1 h)"
  by (auto simp: reader_Read_def reader_script_of_def split: prod.splits)

lemma reader_Read_weight:
  assumes "((bs, None), wd1) = reader_Read h k wd" and "0 < k"
  shows "script_weight (reader_script_of wd1 h) < script_weight (reader_script_of wd h)"
  using script_Read_weight [OF reader_script_of_Read [OF assms(1) [symmetric]] assms(2)] .

termination Read_loop
  by (relation "measure (\<lambda>(h, n, p, s, wd). script_weight (reader_script_of wd h))")
     (auto intro: reader_Read_weight)

declare Read_loop.simps [simp del]

text \<open>
  Lines 26-72. The result is \<open>(n, err, p)\<close>, with \<open>p\<close> the caller's buffer as the call leaves
  it, then the adapter and the connection after the call.
\<close>

definition Read :: "byte list \<Rightarrow> rwc \<Rightarrow> conn \<Rightarrow> (nat \<times> error option \<times> byte list) \<times> rwc \<times> conn" where
  "Read p s wd =
     (let ws = rwc_ws s; r = rwc_r s in
      if ws = None then ((0, Some ErrClosedPipe, p), s, wd)
      else
        (case r of
           Some h \<Rightarrow> Read_loop h 0 p s wd
         | None \<Rightarrow>
             (case conn_NextReader wd of
                (Inl err, wd1) \<Rightarrow> ((0, Some err, p), s, wd1)
              | (Inr h, wd1) \<Rightarrow>
                  (case Read_store h s of
                     (False, s1) \<Rightarrow> ((0, Some ErrClosedPipe, p), s1, wd1)
                   | (True, s1) \<Rightarrow> Read_loop h 0 p s1 wd1))))"

subsection \<open>Write\<close>

text \<open>Lines 93-100: store the new writer unless the adapter was closed meanwhile.\<close>

definition Write_store :: "nat \<Rightarrow> rwc \<Rightarrow> bool \<times> rwc" where
  "Write_store h s = (if rwc_ws s = None then (False, s) else (True, s\<lparr>rwc_w := Some h\<rparr>))"

text \<open>Lines 112-116: forget the writer if it is still the current one.\<close>

definition Write_clear :: "nat \<Rightarrow> rwc \<Rightarrow> rwc" where
  "Write_clear h s = (if rwc_w s = Some h then s\<lparr>rwc_w := None\<rparr> else s)"

text \<open>
  Lines 103-109, the loop \<^verbatim>\<open>for n = 0; n < len(p); { m, err := w.Write(p[n:]); ... }\<close>.
  The short declaration \<^verbatim>\<open>m, err := ...\<close> inside the loop body declares a new \<open>err\<close>
  whose scope is the body: the loop tests it for its \<^verbatim>\<open>break\<close>, and the named result
  \<open>err\<close> of the method is not assigned. So the loop hands back \<open>n\<close> and nothing else.
\<close>

function Write_loop :: "nat \<Rightarrow> nat \<Rightarrow> byte list \<Rightarrow> conn \<Rightarrow> nat \<times> conn" where
  "Write_loop h n p wd =
     (if n < length p then
        (case writer_Write h (drop n p) wd of
           ((m, err), wd1) \<Rightarrow>
             if err \<noteq> None then (n + m, wd1)
             else Write_loop h (n + m) p wd1)
      else (n, wd))"
  by pat_completeness auto

definition write_measure :: "conn \<Rightarrow> nat \<Rightarrow> nat \<Rightarrow> nat" where
  "write_measure wd h k =
     (case writers wd h of None \<Rightarrow> 0 | Some mw \<Rightarrow> Suc (length (mw_script mw) + k))"

lemma writer_Write_measure:
  assumes "((m, None), wd1) = writer_Write h (drop n p) wd" and "n < length p"
  shows "write_measure wd1 h (length p - (n + m)) < write_measure wd h (length p - n)"
  using assms
  by (auto simp: writer_Write_def write_measure_def Let_def
      split: option.splits list.splits if_splits)

termination Write_loop
  by (relation "measure (\<lambda>(h, n, p, wd). write_measure wd h (length p - n))")
     (auto intro: writer_Write_measure)

declare Write_loop.simps [simp del]

text \<open>
  Lines 103-122, with the writer \<open>h\<close> in hand. The named result \<open>err\<close> is nil when line 103
  is reached: either it was never assigned, or \<^verbatim>\<open>NextWriter\<close> assigned nil to it. The loop
  does not assign it, so line 110 reads that nil.
\<close>

definition Write_rest :: "nat \<Rightarrow> byte list \<Rightarrow> rwc \<Rightarrow> conn \<Rightarrow> (nat \<times> error option) \<times> rwc \<times> conn" where
  "Write_rest h p s wd =
     (case Write_loop h 0 p wd of
        (n, wd1) \<Rightarrow>
          (let err = (None :: error option) in
           if err \<noteq> None \<or> n = length p then
             (case writer_Close h wd1 of
                (closeErr, wd2) \<Rightarrow>
                  ((n, if err = None then closeErr else err), Write_clear h s, wd2))
           else ((n, err), s, wd1)))"

text \<open>Lines 75-123.\<close>

definition Write :: "byte list \<Rightarrow> rwc \<Rightarrow> conn \<Rightarrow> (nat \<times> error option) \<times> rwc \<times> conn" where
  "Write p s wd =
     (let ws = rwc_ws s; w = rwc_w s in
      if ws = None then ((0, Some ErrClosedPipe), s, wd)
      else
        (case w of
           Some h \<Rightarrow> Write_rest h p s wd
         | None \<Rightarrow>
             (case conn_NextWriter TextMessage wd of
                (Inl err, wd1) \<Rightarrow> ((0, Some err), s, wd1)
              | (Inr h, wd1) \<Rightarrow>
                  (case Write_store h s of
                     (False, s1) \<Rightarrow>
                       (case writer_Close h wd1 of
                          (_, wd2) \<Rightarrow> ((0, Some ErrClosedPipe), s1, wd2))
                   | (True, s1) \<Rightarrow> Write_rest h p s1 wd1))))"

subsection \<open>Close\<close>

text \<open>Lines 131-137: take the writer and the connection, clear all three fields.\<close>

definition Close_take :: "rwc \<Rightarrow> (nat option \<times> conn_ref option) \<times> rwc" where
  "Close_take s = ((rwc_w s, rwc_ws s), s\<lparr>rwc_w := None, rwc_r := None, rwc_ws := None\<rparr>)"

text \<open>Lines 144-147.\<close>

definition Close_conn :: "conn_ref option \<Rightarrow> rwc \<Rightarrow> conn \<Rightarrow> error option \<times> rwc \<times> conn" where
  "Close_conn ws s wd =
     (case ws of
        Some c \<Rightarrow> (case conn_Close wd of (e, wd1) \<Rightarrow> (e, s, wd1))
      | None \<Rightarrow> (None, s, wd))"

text \<open>Lines 126-148.\<close>

definition Close :: "rwc \<Rightarrow> conn \<Rightarrow> error option \<times> rwc \<times> conn" where
  "Close s wd =
     (case Close_take s of
        ((w, ws), s1) \<Rightarrow>
          (case w of
             Some h \<Rightarrow>
               (case writer_Close h wd of
                  (Some err, wd1) \<Rightarrow> (Some err, s1, wd1)
                | (None, wd1) \<Rightarrow> Close_conn ws s1 wd1)
           | None \<Rightarrow> Close_conn ws s1 wd))"

subsection \<open>Sequences of calls\<close>

datatype call = CallRead "byte list" | CallWrite "byte list" | CallClose

datatype outcome =
    ReadResult nat "error option" "byte list"
  | WriteResult nat "error option"
  | CloseResult "error option"

fun do_call :: "call \<Rightarrow> rwc \<Rightarrow> conn \<Rightarrow> outcome \<times> rwc \<times> conn" where
  "do_call (CallRead p) s wd =
     (case Read p s wd of ((n, err, p'), s1, wd1) \<Rightarrow> (ReadResult n err p', s1, wd1))"
| "do_call (CallWrite p) s wd =
     (case Write p s wd of ((n, err), s1, wd1) \<Rightarrow> (WriteResult n err, s1, wd1))"
| "do_call CallClose s wd =
     (case Close s wd of (err, s1, wd1) \<Rightarrow> (CloseResult err, s1, wd1))"

fun do_calls :: "call list \<Rightarrow> rwc \<Rightarrow> conn \<Rightarrow> outcome list \<times> rwc \<times> conn" where
  "do_calls [] s wd = ([], s, wd)"
| "do_calls (c # cs) s wd =
     (case do_call c s wd of
        (x, s1, wd1) \<Rightarrow> (case do_calls cs s1 wd1 of (xs, s2, wd2) \<Rightarrow> (x # xs, s2, wd2)))"


text \<open>
  A connection on which nothing has happened yet, with its three scripts; its writers
  keep their first error.
\<close>

definition conn_init :: "next_reader list \<Rightarrow> next_writer list \<Rightarrow> error option \<Rightarrow> conn" where
  "conn_init inb outb ce =
     \<lparr>inbound = inb, outbound = outb, close_result = ce, readers = Map.empty,
      writers = Map.empty, fresh = 0, sent = [], trace = [], latch = True\<rparr>"

text \<open>The invariant of section 3 of the specification: no connection, no reader and no writer.\<close>

definition rwc_inv :: "rwc \<Rightarrow> bool" where
  "rwc_inv s = (rwc_ws s = None \<longrightarrow> rwc_r s = None \<and> rwc_w s = None)"

definition all_clear :: "rwc \<Rightarrow> bool" where
  "all_clear s = (rwc_ws s = None \<and> rwc_r s = None \<and> rwc_w s = None)"

text \<open>The next \<^verbatim>\<open>NextWriter\<close> succeeds and the writer it returns will close without error.\<close>

definition next_writer_closes_ok :: "conn \<Rightarrow> bool" where
  "next_writer_closes_ok wd =
     (case outbound wd of
        [] \<Rightarrow> True
      | NextWriterErr e # rest \<Rightarrow> False
      | NextWriterOk sc ce # rest \<Rightarrow> ce = None)"

text \<open>The adapter after \<open>Close\<close>.\<close>

definition closed_rwc :: rwc where
  "closed_rwc = \<lparr>rwc_ws = None, rwc_r = None, rwc_w = None\<rparr>"

text \<open>
  An adapter in the middle of an outbound message, and a connection to match: its writer
  0 has taken two bytes and will close with the result \<open>wce\<close>.
\<close>

definition conn_one_writer :: "error option \<Rightarrow> error option \<Rightarrow> conn" where
  "conn_one_writer wce cce =
     (conn_init [] [] cce)
       \<lparr>writers := [0 \<mapsto> \<lparr>mw_type = TextMessage, mw_script = [], mw_close = wce, mw_buf = ''he'',
                      mw_err = None\<rparr>],
        fresh := 1\<rparr>"

definition rwc_writing :: rwc where
  "rwc_writing = \<lparr>rwc_ws = Some TheConn, rwc_r = None, rwc_w = Some 0\<rparr>"

text \<open>
  What a call did on the connection: the events it appended to the trace. Among them,
  the bytes the message reader returned, and whether the reader reported the end of the
  message.
\<close>

fun read_bytes :: "event list \<Rightarrow> byte list" where
  "read_bytes [] = []"
| "read_bytes (EvRead h k bs e # evs) = bs @ read_bytes evs"
| "read_bytes (ev # evs) = read_bytes evs"

fun eof_seen :: "event list \<Rightarrow> bool" where
  "eof_seen [] = False"
| "eof_seen (EvRead h k bs e # evs) = (e = Some EOF \<or> eof_seen evs)"
| "eof_seen (ev # evs) = eof_seen evs"

definition new_events :: "conn \<Rightarrow> conn \<Rightarrow> event list" where
  "new_events wd wd' = drop (length (trace wd)) (trace wd')"

text \<open>
  The connection of the scenario in section 8 of the specification: it delivers the
  messages \<open>AB\<close> and \<open>CDE\<close>, each reader giving its message in one piece when there is room
  and \<^verbatim>\<open>(0, io.EOF)\<close> after the last byte.
\<close>

definition conn_AB_CDE :: conn where
  "conn_AB_CDE = conn_init [NextReaderOk [(''AB'', None)], NextReaderOk [(''CDE'', None)]] [] None"

text \<open>Projections of the result of a call; \<open>read_data\<close> is \<^verbatim>\<open>p[:n]\<close>.\<close>

definition read_n :: "(nat \<times> error option \<times> byte list) \<times> rwc \<times> conn \<Rightarrow> nat" where
  "read_n x = fst (fst x)"
definition read_err :: "(nat \<times> error option \<times> byte list) \<times> rwc \<times> conn \<Rightarrow> error option" where
  "read_err x = fst (snd (fst x))"
definition read_data :: "(nat \<times> error option \<times> byte list) \<times> rwc \<times> conn \<Rightarrow> byte list" where
  "read_data x = take (fst (fst x)) (snd (snd (fst x)))"
definition rwc_after :: "'a \<times> rwc \<times> conn \<Rightarrow> rwc" where
  "rwc_after x = fst (snd x)"
definition conn_after :: "'a \<times> rwc \<times> conn \<Rightarrow> conn" where
  "conn_after x = snd (snd x)"

text \<open>The caller's buffer of the scenario, \<^verbatim>\<open>make([]byte, 3)\<close>, and its three reads.\<close>

definition buf3 :: "byte list" where
  "buf3 = [CHR 0x00, CHR 0x00, CHR 0x00]"

definition three_reads :: "outcome list \<times> rwc \<times> conn" where
  "three_reads =
     do_calls [CallRead buf3, CallRead buf3, CallRead buf3]
       (NewReadWriteCloser (Some TheConn)) conn_AB_CDE"

text \<open>The bytes a call returned to its caller: \<^verbatim>\<open>p[:n]\<close> for a read.\<close>

fun outcome_data :: "outcome \<Rightarrow> byte list" where
  "outcome_data (ReadResult n err p) = take n p"
| "outcome_data (WriteResult n err) = []"
| "outcome_data (CloseResult err) = []"

text \<open>
  The inbound byte stream. A message reader is taken to report \<^verbatim>\<open>io.EOF\<close> at the end of
  its message only: in its script, \<open>Some EOF\<close> can stand in the last answer and nowhere else.
  How the bytes come in chunks, and errors other than \<^verbatim>\<open>io.EOF\<close>, are free. The bytes of a
  message are the bytes of its chunks.
\<close>

fun eof_last :: "reader_script \<Rightarrow> bool" where
  "eof_last [] = True"
| "eof_last ((bs, e) # rest) = ((e = Some EOF \<longrightarrow> rest = []) \<and> eof_last rest)"

definition script_bytes :: "reader_script \<Rightarrow> byte list" where
  "script_bytes sc = concat (map fst sc)"

fun next_reader_bytes :: "next_reader \<Rightarrow> byte list" where
  "next_reader_bytes (NextReaderErr e) = []"
| "next_reader_bytes (NextReaderOk sc) = script_bytes sc"

fun next_reader_ok :: "next_reader \<Rightarrow> bool" where
  "next_reader_ok (NextReaderErr e) = True"
| "next_reader_ok (NextReaderOk sc) = eof_last sc"

fun next_reader_cost :: "next_reader \<Rightarrow> nat" where
  "next_reader_cost (NextReaderErr e) = 1"
| "next_reader_cost (NextReaderOk sc) = 2 + script_weight sc"

text \<open>
  The bytes still to come: the rest of the message being read, then the messages the
  connection has not handed out yet.
\<close>

definition pending :: "rwc \<Rightarrow> conn \<Rightarrow> byte list" where
  "pending s wd =
     (case rwc_r s of None \<Rightarrow> [] | Some h \<Rightarrow> script_bytes (reader_script_of wd h)) @
     concat (map next_reader_bytes (inbound wd))"

definition stream_ok :: "rwc \<Rightarrow> conn \<Rightarrow> bool" where
  "stream_ok s wd =
     (rwc_ws s \<noteq> None \<and>
      (case rwc_r s of None \<Rightarrow> True | Some h \<Rightarrow> eof_last (reader_script_of wd h)) \<and>
      list_all next_reader_ok (inbound wd))"

text \<open>
  A bound on the number of reads with a non-empty buffer that exhaust the stream: each such
  read consumes at least one answer of a script, or at least one byte, or ends a message.
\<close>

definition stream_cost :: "rwc \<Rightarrow> conn \<Rightarrow> nat" where
  "stream_cost s wd =
     (case rwc_r s of None \<Rightarrow> 0 | Some h \<Rightarrow> Suc (script_weight (reader_script_of wd h))) +
     sum_list (map next_reader_cost (inbound wd))"

text \<open>
  The connection delivers the messages \<open>msgs\<close>: every \<^verbatim>\<open>NextReader\<close> succeeds, and the
  readers carry these messages, in this order.
\<close>

fun next_reader_msg :: "next_reader \<Rightarrow> bool" where
  "next_reader_msg (NextReaderErr e) = False"
| "next_reader_msg (NextReaderOk sc) = eof_last sc"

definition delivers :: "conn \<Rightarrow> byte list list \<Rightarrow> bool" where
  "delivers wd msgs =
     (list_all next_reader_msg (inbound wd) \<and> map next_reader_bytes (inbound wd) = msgs)"

text \<open>Eleven buffers of several sizes, for reading \<open>conn_AB_CDE\<close> to its end.\<close>

definition various_bufs :: "byte list list" where
  "various_bufs =
     [''x'', ''xxxx'', ''xx'', ''x'', ''xxx'', ''x'', ''xx'', ''x'', ''x'', ''xxxxx'', ''x'']"

text \<open>
  The outbound messages. In a run of calls one after the other, the writer the adapter
  holds between two calls, if any, is one whose \<^verbatim>\<open>Write\<close> has failed (or that is closed):
  \<open>Write\<close> closes its writer whenever the buffer was written in full.
\<close>

definition failed :: "conn \<Rightarrow> nat \<Rightarrow> bool" where
  "failed wd h = (case writers wd h of None \<Rightarrow> True | Some mw \<Rightarrow> mw_err mw \<noteq> None)"

definition no_live_writer :: "rwc \<Rightarrow> conn \<Rightarrow> bool" where
  "no_live_writer s wd =
     (latch wd \<and>
      (case rwc_w s of
         None \<Rightarrow> True
       | Some h \<Rightarrow> (case writers wd h of None \<Rightarrow> True | Some mw \<Rightarrow> mw_err mw \<noteq> None)))"

text \<open>
  The messages a sequence of calls is to have sent, by its outcomes: one text message
  for each \<open>Write\<close> that returned \<^verbatim>\<open>(len(p), nil)\<close>, made of the bytes of its buffer.
\<close>

fun written :: "call list \<Rightarrow> outcome list \<Rightarrow> (message_type \<times> byte list) list" where
  "written (CallWrite p # cs) (WriteResult n err # xs) =
     (if n = length p \<and> err = None then [(TextMessage, p)] else []) @ written cs xs"
| "written (c # cs) (x # xs) = written cs xs"
| "written cs xs = []"

text \<open>
  The writer \<open>h\<close> is open, no \<^verbatim>\<open>Write\<close> of it has failed, and it has taken the bytes \<open>buf\<close>.
\<close>

definition live :: "conn \<Rightarrow> nat \<Rightarrow> message_type \<Rightarrow> error option \<Rightarrow> byte list \<Rightarrow> bool" where
  "live wd h t ce buf =
     (\<exists>mw. writers wd h = Some mw \<and> mw_type mw = t \<and> mw_close mw = ce \<and>
           mw_buf mw = buf \<and> mw_err mw = None)"

text \<open>The outbound side of the connection is untouched.\<close>

definition same_out :: "conn \<Rightarrow> conn \<Rightarrow> bool" where
  "same_out wd wd' = (writers wd' = writers wd \<and> latch wd' = latch wd \<and> sent wd' = sent wd)"

text \<open>
  A connection whose first writer is sound and whose second writer fails at its first
  \<^verbatim>\<open>Write\<close>, after one byte; and four writes.
\<close>

definition conn_two_writers :: conn where
  "conn_two_writers =
     conn_init [] [NextWriterOk [] None, NextWriterOk [(1, Some (ErrTransport 1))] None] None"

definition four_writes :: "call list" where
  "four_writes = [CallWrite ''hello'', CallWrite ''ab'', CallWrite ''cd'', CallWrite []]"

text \<open>
  The scenario's connection after \<^verbatim>\<open>NextReader\<close> has handed out the reader of \<open>AB\<close>, with
  handle 0; and an adapter that holds another reader, as after a \<open>Close\<close> and a call that
  raced with the read.
\<close>

definition conn_reading_AB :: conn where
  "conn_reading_AB = snd (conn_NextReader conn_AB_CDE)"

definition rwc_other_reader :: rwc where
  "rwc_other_reader = \<lparr>rwc_ws = Some TheConn, rwc_r = Some 7, rwc_w = None\<rparr>"

text \<open>The same five bytes, framed as \<open>ABC\<close> and \<open>DE\<close>.\<close>

definition conn_ABC_DE :: conn where
  "conn_ABC_DE = conn_init [NextReaderOk [(''ABC'', None)], NextReaderOk [(''DE'', None)]] [] None"

section \<open>Properties\<close>

lemmas io_defs =
  conn_NextReader_def reader_Read_def reader_script_of_def conn_NextWriter_def
  writer_Write_def writer_Close_def conn_Close_def

lemmas result_defs = read_n_def read_err_def read_data_def rwc_after_def conn_after_def

lemmas rwc_defs =
  NewReadWriteCloser_def Read_store_def Read_clear_def fill_def Read_def Write_store_def
  Write_clear_def Write_rest_def Write_def Close_take_def Close_conn_def Close_def

subsection \<open>What the calls do to the three fields\<close>

lemma Read_loop_rwc:
  "Read_loop h n p s wd = (x, s1, wd1) \<Longrightarrow> s1 = s \<or> s1 = Read_clear h s"
proof (induction h n p s wd rule: Read_loop.induct)
  case (1 h n p s wd)
  show ?case
  proof (cases "n < length p")
    case False
    with "1.prems" show ?thesis by (simp add: Read_loop.simps)
  next
    case True
    obtain bs err wd' where rd: "reader_Read h (length p - n) wd = ((bs, err), wd')"
      by (metis prod.exhaust)
    show ?thesis
    proof (cases "err = None")
      case True
      with \<open>n < length p\<close> rd "1.prems" "1.IH" [OF \<open>n < length p\<close> rd [symmetric] refl]
      show ?thesis by (simp add: Read_loop.simps [of h n p s wd])
    next
      case False
      with \<open>n < length p\<close> rd "1.prems" show ?thesis
        by (auto simp: Read_loop.simps [of h n p s wd] split: if_splits)
    qed
  qed
qed

lemma Read_clear_inv: "rwc_inv s \<Longrightarrow> rwc_inv (Read_clear h s)"
  by (simp add: rwc_inv_def Read_clear_def)

lemma Read_store_inv: "Read_store h s = (b, s1) \<Longrightarrow> rwc_inv s \<Longrightarrow> rwc_inv s1"
  by (auto simp: rwc_inv_def Read_store_def split: if_splits)

lemma Write_clear_inv: "rwc_inv s \<Longrightarrow> rwc_inv (Write_clear h s)"
  by (simp add: rwc_inv_def Write_clear_def)

lemma Write_store_inv: "Write_store h s = (b, s1) \<Longrightarrow> rwc_inv s \<Longrightarrow> rwc_inv s1"
  by (auto simp: rwc_inv_def Write_store_def split: if_splits)

lemma Read_loop_inv: "rwc_inv s \<Longrightarrow> rwc_inv (fst (snd (Read_loop h n p s wd)))"
proof -
  assume i: "rwc_inv s"
  obtain x s1 wd1 where r: "Read_loop h n p s wd = (x, s1, wd1)" by (metis prod.exhaust)
  from Read_loop_rwc [OF r] i r show ?thesis by (auto intro: Read_clear_inv)
qed

lemma Read_inv: "rwc_inv s \<Longrightarrow> rwc_inv (fst (snd (Read p s wd)))"
  by (auto simp: Read_def Let_def Read_loop_inv split: option.splits prod.splits sum.splits bool.splits
      dest: Read_store_inv)

lemma Write_rest_inv: "rwc_inv s \<Longrightarrow> rwc_inv (fst (snd (Write_rest h p s wd)))"
  by (auto simp: Write_rest_def Write_clear_inv split: prod.splits)

lemma Write_inv: "rwc_inv s \<Longrightarrow> rwc_inv (fst (snd (Write p s wd)))"
  by (auto simp: Write_def Let_def Write_rest_inv split: option.splits prod.splits sum.splits bool.splits
      dest: Write_store_inv)

lemma Close_inv: "rwc_inv (fst (snd (Close s wd)))"
  by (auto simp: Close_def Close_take_def Close_conn_def rwc_inv_def split: option.splits prod.splits)

lemma Read_closed: "rwc_ws s = None \<Longrightarrow> Read p s wd = ((0, Some ErrClosedPipe, p), s, wd)"
  by (simp add: Read_def)

lemma Write_closed: "rwc_ws s = None \<Longrightarrow> Write p s wd = ((0, Some ErrClosedPipe), s, wd)"
  by (simp add: Write_def)

lemma Close_all_clear: "all_clear s \<Longrightarrow> Close s wd = (None, s, wd)"
  by (simp add: all_clear_def Close_def Close_take_def Close_conn_def)

lemma Close_makes_all_clear: "Close s wd = (e, s1, wd1) \<Longrightarrow> all_clear s1"
  by (auto simp: all_clear_def Close_def Close_take_def Close_conn_def split: option.splits prod.splits)

lemma do_call_all_clear:
  "all_clear s \<Longrightarrow> do_call c s wd = (x, s1, wd1) \<Longrightarrow> s1 = s \<and> wd1 = wd"
  by (cases c) (auto simp: Read_closed Write_closed Close_all_clear all_clear_def)

lemma do_calls_all_clear:
  "all_clear s \<Longrightarrow> do_calls cs s wd = (xs, s1, wd1) \<Longrightarrow> s1 = s \<and> wd1 = wd"
proof (induction cs arbitrary: xs s1 wd1)
  case Nil
  then show ?case by simp
next
  case (Cons c cs)
  obtain x s' wd' where c: "do_call c s wd = (x, s', wd')" by (metis prod.exhaust)
  with Cons.prems(1) have same: "s' = s" "wd' = wd" by (auto dest: do_call_all_clear)
  obtain ys s'' wd'' where cs: "do_calls cs s wd = (ys, s'', wd'')" by (metis prod.exhaust)
  with Cons.IH [OF Cons.prems(1) cs] Cons.prems(2) c same show ?case by simp
qed

subsection \<open>The invariant\<close>

text \<open>
  C8. The invariant "no connection implies no reader and no writer" holds for a new
  adapter and is kept by \<open>Read\<close>, \<open>Write\<close> and \<open>Close\<close>. It is also kept by each region
  that runs with the mutex held, whatever handle the region is given, so it does not depend
  on the calls running one after the other: the two storing regions store nothing when
  the connection field is nil, and the region of \<open>Close\<close> clears the three fields at once.
\<close>

theorem invariant_kept:
  "rwc_inv (NewReadWriteCloser ws) \<and>
   (rwc_inv s \<longrightarrow>
      rwc_inv (fst (snd (Read p s wd))) \<and> rwc_inv (fst (snd (Write p s wd))) \<and>
      rwc_inv (fst (snd (Close s wd))) \<and>
      rwc_inv (snd (Read_store h s)) \<and> rwc_inv (Read_clear h s) \<and>
      rwc_inv (snd (Write_store h s)) \<and> rwc_inv (Write_clear h s) \<and> rwc_inv (snd (Close_take s))) \<and>
   (rwc_ws s = None \<longrightarrow> Read_store h s = (False, s) \<and> Write_store h s = (False, s)) \<and>
   all_clear (snd (Close_take s)) \<and> all_clear (fst (snd (Close s wd)))"
proof -
  have "rwc_inv (NewReadWriteCloser ws)" by (simp add: rwc_inv_def NewReadWriteCloser_def)
  moreover have "all_clear (snd (Close_take s))" by (simp add: all_clear_def Close_take_def)
  moreover have "rwc_inv (snd (Close_take s))" by (simp add: rwc_inv_def Close_take_def)
  moreover have "all_clear (fst (snd (Close s wd)))"
    by (auto simp: Close_def Close_take_def Close_conn_def all_clear_def split: option.splits prod.splits)
  moreover have "rwc_ws s = None \<longrightarrow> Read_store h s = (False, s) \<and> Write_store h s = (False, s)"
    by (simp add: Read_store_def Write_store_def)
  ultimately show ?thesis
    using Read_inv [of s p wd] Write_inv [of s p wd] Close_inv [of s wd]
      Read_store_inv [of h s "fst (Read_store h s)" "snd (Read_store h s)"]
      Read_clear_inv [of s h]
      Write_store_inv [of h s "fst (Write_store h s)" "snd (Write_store h s)"]
      Write_clear_inv [of s h]
    by simp
qed

theorem invariant_kept_witness:
  "rwc_inv \<lparr>rwc_ws = Some TheConn, rwc_r = Some 3, rwc_w = None\<rparr> \<and>
   rwc_inv (fst (snd (Read ''xy'' \<lparr>rwc_ws = Some TheConn, rwc_r = Some 3, rwc_w = None\<rparr>
                   (conn_init [] [] None)))) \<and>
   rwc_inv (fst (snd (Close \<lparr>rwc_ws = Some TheConn, rwc_r = Some 3, rwc_w = None\<rparr>
                   (conn_init [] [] None))))"
proof -
  have i: "rwc_inv \<lparr>rwc_ws = Some TheConn, rwc_r = Some 3, rwc_w = None\<rparr>"
    by (simp add: rwc_inv_def)
  from invariant_kept [of "Some TheConn" "\<lparr>rwc_ws = Some TheConn, rwc_r = Some 3, rwc_w = None\<rparr>"
      "''xy''" "conn_init [] [] None" 0] i
  show ?thesis by blast
qed

subsection \<open>The read loop\<close>

lemma Read_loop_done:
  "\<not> n < length p \<Longrightarrow> Read_loop h n p s wd = ((n, None, p), s, wd)"
  by (simp add: Read_loop.simps)

lemma Read_loop_again:
  "n < length p \<Longrightarrow> reader_Read h (length p - n) wd = ((bs, None), wd1) \<Longrightarrow>
   Read_loop h n p s wd = Read_loop h (n + length bs) (fill p n bs) s wd1"
  by (simp add: Read_loop.simps [of h n p s wd])

lemma Read_loop_break:
  "n < length p \<Longrightarrow> reader_Read h (length p - n) wd = ((bs, Some e), wd1) \<Longrightarrow>
   Read_loop h n p s wd =
     ((n + length bs, Some e, fill p n bs), if e = EOF then Read_clear h s else s, wd1)"
  by (simp add: Read_loop.simps [of h n p s wd])

lemma Read_loop_induct2 [case_names finished broke again]:
  fixes P :: "nat \<Rightarrow> nat \<Rightarrow> byte list \<Rightarrow> rwc \<Rightarrow> conn \<Rightarrow> bool"
  assumes "\<And>h n p s wd. \<not> n < length p \<Longrightarrow> P h n p s wd"
    and "\<And>h n p s wd bs e wd1.
           n < length p \<Longrightarrow> reader_Read h (length p - n) wd = ((bs, Some e), wd1) \<Longrightarrow>
           P h n p s wd"
    and "\<And>h n p s wd bs wd1.
           n < length p \<Longrightarrow> reader_Read h (length p - n) wd = ((bs, None), wd1) \<Longrightarrow>
           P h (n + length bs) (fill p n bs) s wd1 \<Longrightarrow> P h n p s wd"
  shows "P h n p s wd"
proof (induction h n p s wd rule: Read_loop.induct)
  case (1 h n p s wd)
  show ?case
  proof (cases "n < length p")
    case False
    then show ?thesis by (rule assms(1))
  next
    case True
    obtain bs err wd1 where rd: "reader_Read h (length p - n) wd = ((bs, err), wd1)"
      by (metis prod.exhaust)
    show ?thesis
    proof (cases err)
      case None
      with rd have rd': "reader_Read h (length p - n) wd = ((bs, None), wd1)" by simp
      have "P h (n + length bs) (fill p n bs) s wd1"
        using "1.IH" [OF True rd [symmetric] refl] None by simp
      with assms(3) [OF True rd'] show ?thesis .
    next
      case (Some e)
      with rd have "reader_Read h (length p - n) wd = ((bs, Some e), wd1)" by simp
      with assms(2) [OF True] show ?thesis .
    qed
  qed
qed

lemma reader_Read_trace:
  "reader_Read h k wd = ((bs, e), wd1) \<Longrightarrow> trace wd1 = trace wd @ [EvRead h k bs e]"
  by (auto simp: reader_Read_def split: prod.splits)

lemma script_Read_length: "script_Read sc k = (bs, e, sc') \<Longrightarrow> length bs \<le> k"
  by (cases sc) (auto split: if_splits)

lemma reader_Read_length: "reader_Read h k wd = ((bs, e), wd1) \<Longrightarrow> length bs \<le> k"
  by (auto simp: reader_Read_def split: prod.splits dest: script_Read_length)

lemma take_fill: "n \<le> length p \<Longrightarrow> length bs \<le> length p - n \<Longrightarrow>
  take (n + length bs) (fill p n bs) = take n p @ bs"
  by (simp add: fill_def)

lemma length_fill: "n \<le> length p \<Longrightarrow> length bs \<le> length p - n \<Longrightarrow>
  length (fill p n bs) = length p"
  by (simp add: fill_def)

lemma read_bytes_append: "read_bytes (xs @ ys) = read_bytes xs @ read_bytes ys"
  by (induction xs rule: read_bytes.induct) auto

lemma eof_seen_append: "eof_seen (xs @ ys) = (eof_seen xs \<or> eof_seen ys)"
  by (induction xs rule: eof_seen.induct) auto

text \<open>What the loop returns, in terms of what the reader answered while it ran.\<close>

lemma Read_loop_result:
  assumes "Read_loop h n p s wd = ((n', err, p'), s', wd')" and "n \<le> length p"
  shows "\<exists>evs. trace wd' = trace wd @ evs \<and> n' \<le> length p \<and> length p' = length p \<and>
           take n' p' = take n p @ read_bytes evs \<and>
           (eof_seen evs \<longrightarrow> err = Some EOF \<and> s' = Read_clear h s) \<and>
           (\<not> eof_seen evs \<longrightarrow> err \<noteq> Some EOF \<and> s' = s)"
  using assms
proof (induction h n p s wd rule: Read_loop_induct2)
  case (finished h n p s wd)
  then show ?case by (auto simp: Read_loop_done)
next
  case (broke h n p s wd bs e wd1)
  from reader_Read_length [OF broke(2)] reader_Read_trace [OF broke(2)] broke(1,3,4)
  show ?case by (cases "e = EOF") (auto simp: take_fill length_fill Read_loop_break [OF broke(1,2)])
next
  case (again h n p s wd bs wd1)
  have len: "length bs \<le> length p - n" using reader_Read_length [OF again(2)] .
  with again(1) have le: "n + length bs \<le> length (fill p n bs)" by (simp add: length_fill)
  have eq: "Read_loop h (n + length bs) (fill p n bs) s wd1 = ((n', err, p'), s', wd')"
    using again(4) Read_loop_again [OF again(1,2)] by simp
  from again(3) [OF eq le] obtain evs where
    evs: "trace wd' = trace wd1 @ evs" "n' \<le> length (fill p n bs)"
      "length p' = length (fill p n bs)"
      "take n' p' = take (n + length bs) (fill p n bs) @ read_bytes evs"
      "eof_seen evs \<longrightarrow> err = Some EOF \<and> s' = Read_clear h s"
      "\<not> eof_seen evs \<longrightarrow> err \<noteq> Some EOF \<and> s' = s"
    by blast
  have "trace wd' = trace wd @ (EvRead h (length p - n) bs None # evs)"
    using evs(1) reader_Read_trace [OF again(2)] by simp
  moreover have "take n' p' = take n p @ read_bytes (EvRead h (length p - n) bs None # evs)"
    using evs(4) len again(1,5) by (simp add: take_fill)
  ultimately show ?case using evs(2,3,5,6) len again(1,5)
    by (intro exI [of _ "EvRead h (length p - n) bs None # evs"]) (simp add: length_fill)
qed


lemma conn_NextReader_trace:
  "conn_NextReader wd = (x, wd1) \<Longrightarrow> trace wd1 = trace wd @ [EvNextReader]"
  by (auto simp: conn_NextReader_def Let_def split: list.splits next_reader.splits)

lemma new_events_append: "trace wd' = trace wd @ evs \<Longrightarrow> new_events wd wd' = evs"
  by (simp add: new_events_def)

text \<open>The four ways through \<open>Read\<close>.\<close>

lemma Read_current:
  "rwc_ws s \<noteq> None \<Longrightarrow> rwc_r s = Some h \<Longrightarrow> Read p s wd = Read_loop h 0 p s wd"
  by (cases "rwc_ws s") (simp_all add: Read_def)

lemma Read_failed:
  "rwc_ws s \<noteq> None \<Longrightarrow> rwc_r s = None \<Longrightarrow> conn_NextReader wd = (Inl e, wd1) \<Longrightarrow>
   Read p s wd = ((0, Some e, p), s, wd1)"
  by (cases "rwc_ws s") (simp_all add: Read_def)

lemma Read_fetched:
  "rwc_ws s \<noteq> None \<Longrightarrow> rwc_r s = None \<Longrightarrow> conn_NextReader wd = (Inr h, wd1) \<Longrightarrow>
   Read p s wd = Read_loop h 0 p (s\<lparr>rwc_r := Some h\<rparr>) wd1"
  by (cases "rwc_ws s") (simp_all add: Read_def Read_store_def)

lemma Read_cases [consumes 1, case_names closed current failed fetched]:
  assumes "Read p s wd = x"
    and "rwc_ws s = None \<Longrightarrow> x = ((0, Some ErrClosedPipe, p), s, wd) \<Longrightarrow> R"
    and "\<And>h. rwc_ws s \<noteq> None \<Longrightarrow> rwc_r s = Some h \<Longrightarrow> x = Read_loop h 0 p s wd \<Longrightarrow> R"
    and "\<And>e wd1. rwc_ws s \<noteq> None \<Longrightarrow> rwc_r s = None \<Longrightarrow>
           conn_NextReader wd = (Inl e, wd1) \<Longrightarrow> x = ((0, Some e, p), s, wd1) \<Longrightarrow> R"
    and "\<And>h wd1. rwc_ws s \<noteq> None \<Longrightarrow> rwc_r s = None \<Longrightarrow>
           conn_NextReader wd = (Inr h, wd1) \<Longrightarrow>
           x = Read_loop h 0 p (s\<lparr>rwc_r := Some h\<rparr>) wd1 \<Longrightarrow> R"
  shows R
proof (cases "rwc_ws s = None")
  case True
  from assms(2) [OF True] assms(1) Read_closed [OF True, of p wd] show ?thesis by simp
next
  case open_ws: False
  show ?thesis
  proof (cases "rwc_r s")
    case (Some h)
    from assms(3) [OF open_ws Some] assms(1) Read_current [OF open_ws Some, of p wd]
    show ?thesis by simp
  next
    case None
    obtain y wd1 where nr: "conn_NextReader wd = (y, wd1)" by (metis prod.exhaust)
    show ?thesis
    proof (cases y)
      case (Inl e)
      with nr have nr': "conn_NextReader wd = (Inl e, wd1)" by simp
      from assms(4) [OF open_ws None nr'] assms(1) Read_failed [OF open_ws None nr', of p]
      show ?thesis by simp
    next
      case (Inr h)
      with nr have nr': "conn_NextReader wd = (Inr h, wd1)" by simp
      from assms(5) [OF open_ws None nr'] assms(1) Read_fetched [OF open_ws None nr', of p]
      show ?thesis by simp
    qed
  qed
qed

subsection \<open>The end of a message\<close>

text \<open>
  C2, as the code has it. When the message reader reports the end of the message during
  a \<open>Read\<close>, the call forgets the reader (\<open>rwc_r\<close> becomes nil, the other fields stay) and
  returns the bytes read so far, \<^verbatim>\<open>p[:n]\<close>, together with \<^verbatim>\<open>io.EOF\<close> as its error: line 57
  tests the named result \<open>err\<close>, leaves the loop, and line 71 returns it as it is.
  The reader is forgotten only if the field still holds it (line 60): the loop, run with
  the reader \<open>h\<close> on an adapter whose field holds another reader or none, as after a call
  that came in between, leaves the adapter exactly as it is when the message ends.
\<close>

theorem Read_end_of_message:
  "(Read p s wd = ((n, err, p'), s', wd') \<and> eof_seen (new_events wd wd') \<longrightarrow>
      err = Some EOF \<and> rwc_r s' = None \<and> rwc_ws s' = rwc_ws s \<and> rwc_w s' = rwc_w s \<and>
      n \<le> length p \<and> take n p' = read_bytes (new_events wd wd')) \<and>
   (Read_loop h m q t cn = ((m', e', q'), t', cn') \<and> m \<le> length q \<and>
    eof_seen (new_events cn cn') \<longrightarrow>
      e' = Some EOF \<and> t' = (if rwc_r t = Some h then t\<lparr>rwc_r := None\<rparr> else t))"
proof (intro conjI impI)
  assume a: "Read_loop h m q t cn = ((m', e', q'), t', cn') \<and> m \<le> length q \<and>
    eof_seen (new_events cn cn')"
  from Read_loop_result [of h m q t cn m' e' q' t' cn'] a obtain evs where
    "trace cn' = trace cn @ evs" "eof_seen evs \<longrightarrow> e' = Some EOF \<and> t' = Read_clear h t"
    by auto
  with a new_events_append [of cn' cn evs]
  show "e' = Some EOF" and "t' = (if rwc_r t = Some h then t\<lparr>rwc_r := None\<rparr> else t)"
    by (simp_all add: Read_clear_def)
next
  assume a: "Read p s wd = ((n, err, p'), s', wd') \<and> eof_seen (new_events wd wd')"
  then have rd: "Read p s wd = ((n, err, p'), s', wd')" and eof: "eof_seen (new_events wd wd')"
    by simp_all
  have "err = Some EOF \<and> rwc_r s' = None \<and> rwc_ws s' = rwc_ws s \<and> rwc_w s' = rwc_w s \<and>
         n \<le> length p \<and> take n p' = read_bytes (new_events wd wd')"
    using rd
  proof (cases rule: Read_cases)
    case closed
    with eof show ?thesis by (simp add: new_events_def)
  next
    case (current h)
    from Read_loop_result [OF current(3) [symmetric]] obtain evs where
      evs: "trace wd' = trace wd @ evs" "n \<le> length p" "take n p' = take 0 p @ read_bytes evs"
        "eof_seen evs \<longrightarrow> err = Some EOF \<and> s' = Read_clear h s"
      by auto
    with eof current(2) new_events_append [OF evs(1)] show ?thesis
      by (simp add: Read_clear_def)
  next
    case (failed e wd1)
    with eof conn_NextReader_trace [OF failed(3)] show ?thesis
      by (simp add: new_events_def)
  next
    case (fetched h wd1)
    from Read_loop_result [OF fetched(4) [symmetric]] obtain evs where
      evs: "trace wd' = trace wd1 @ evs" "n \<le> length p" "take n p' = take 0 p @ read_bytes evs"
        "eof_seen evs \<longrightarrow> err = Some EOF \<and> s' = Read_clear h (s\<lparr>rwc_r := Some h\<rparr>)"
      by auto
    have "trace wd' = trace wd @ (EvNextReader # evs)"
      using evs(1) conn_NextReader_trace [OF fetched(3)] by simp
    from new_events_append [OF this] eof evs show ?thesis
      by (simp add: Read_clear_def)
  qed
  then show "err = Some EOF" and "rwc_r s' = None" and "rwc_ws s' = rwc_ws s"
    and "rwc_w s' = rwc_w s" and "n \<le> length p"
    and "take n p' = read_bytes (new_events wd wd')"
    by simp_all
qed

text \<open>
  C2 as the specification states it, with "no error", fails: the connection delivers the
  message \<open>AB\<close>, the caller reads with a buffer of 3 bytes, the reader reports the end of the
  message, and the error returned is not nil.
\<close>

theorem Read_eof_counterexample:
  "rwc_ws (NewReadWriteCloser (Some TheConn)) \<noteq> None \<and>
   eof_seen (new_events conn_AB_CDE
      (conn_after (Read ''xxx'' (NewReadWriteCloser (Some TheConn)) conn_AB_CDE))) \<and>
   read_err (Read ''xxx'' (NewReadWriteCloser (Some TheConn)) conn_AB_CDE) \<noteq> None"
  by (simp add: conn_AB_CDE_def conn_init_def rwc_defs io_defs result_defs new_events_def
      Read_loop.simps Let_def)

theorem Read_end_of_message_witness:
  "eof_seen (new_events conn_AB_CDE
      (conn_after (Read ''xxx'' (NewReadWriteCloser (Some TheConn)) conn_AB_CDE))) \<and>
   read_err (Read ''xxx'' (NewReadWriteCloser (Some TheConn)) conn_AB_CDE) = Some EOF \<and>
   read_data (Read ''xxx'' (NewReadWriteCloser (Some TheConn)) conn_AB_CDE) = ''AB'' \<and>
   rwc_r (rwc_after (Read ''xxx'' (NewReadWriteCloser (Some TheConn)) conn_AB_CDE)) = None \<and>
   eof_seen (new_events conn_reading_AB
      (conn_after (Read_loop 0 0 ''xxx'' rwc_other_reader conn_reading_AB))) \<and>
   read_err (Read_loop 0 0 ''xxx'' rwc_other_reader conn_reading_AB) = Some EOF \<and>
   rwc_after (Read_loop 0 0 ''xxx'' rwc_other_reader conn_reading_AB) = rwc_other_reader \<and>
   eof_seen (new_events conn_reading_AB
      (conn_after (Read_loop 0 0 ''xxx'' closed_rwc conn_reading_AB))) \<and>
   rwc_after (Read_loop 0 0 ''xxx'' closed_rwc conn_reading_AB) = closed_rwc"
proof -
  let ?x = "Read ''xxx'' (NewReadWriteCloser (Some TheConn)) conn_AB_CDE"
  let ?y = "Read_loop 0 0 ''xxx'' rwc_other_reader conn_reading_AB"
  let ?z = "Read_loop 0 0 ''xxx'' closed_rwc conn_reading_AB"
  have tr: "trace (conn_after ?x) =
      [EvNextReader, EvRead 0 3 ''AB'' None, EvRead 0 1 [] (Some EOF)]"
    and t0: "trace conn_AB_CDE = []"
    by (simp_all add: conn_AB_CDE_def conn_init_def rwc_defs io_defs result_defs
        Read_loop.simps Let_def)
  then have e: "eof_seen (new_events conn_AB_CDE (conn_after ?x))"
    by (simp add: new_events_def)
  have x: "?x = ((read_n ?x, read_err ?x, snd (snd (fst ?x))), rwc_after ?x, conn_after ?x)"
    by (simp add: result_defs)
  have ty: "trace (conn_after ?y) =
      [EvNextReader, EvRead 0 3 ''AB'' None, EvRead 0 1 [] (Some EOF)]"
    and tz: "trace (conn_after ?z) =
      [EvNextReader, EvRead 0 3 ''AB'' None, EvRead 0 1 [] (Some EOF)]"
    and t1: "trace conn_reading_AB = [EvNextReader]"
    by (simp_all add: conn_reading_AB_def conn_AB_CDE_def conn_init_def rwc_defs io_defs
        result_defs Read_loop.simps Let_def)
  then have ey: "eof_seen (new_events conn_reading_AB (conn_after ?y))"
    and ez: "eof_seen (new_events conn_reading_AB (conn_after ?z))"
    by (simp_all add: new_events_def)
  have y: "?y = ((read_n ?y, read_err ?y, snd (snd (fst ?y))), rwc_after ?y, conn_after ?y)"
    and z: "?z = ((read_n ?z, read_err ?z, snd (snd (fst ?z))), rwc_after ?z, conn_after ?z)"
    by (simp_all add: result_defs)
  have r: "rwc_r rwc_other_reader \<noteq> Some 0" "rwc_r closed_rwc \<noteq> Some 0"
    by (simp_all add: rwc_other_reader_def closed_rwc_def)
  from Read_end_of_message [of "''xxx''" "NewReadWriteCloser (Some TheConn)" conn_AB_CDE
      "read_n ?x" "read_err ?x" "snd (snd (fst ?x))" "rwc_after ?x" "conn_after ?x"
      0 0 "''xxx''" rwc_other_reader conn_reading_AB
      "read_n ?y" "read_err ?y" "snd (snd (fst ?y))" "rwc_after ?y" "conn_after ?y"]
    Read_end_of_message [of "''xxx''" "NewReadWriteCloser (Some TheConn)" conn_AB_CDE
      "read_n ?x" "read_err ?x" "snd (snd (fst ?x))" "rwc_after ?x" "conn_after ?x"
      0 0 "''xxx''" closed_rwc conn_reading_AB
      "read_n ?z" "read_err ?z" "snd (snd (fst ?z))" "rwc_after ?z" "conn_after ?z"]
    x y z e ey ez tr t0 r
  show ?thesis
    by (simp add: new_events_def result_defs)
qed

subsection \<open>The scenario of two messages and three reads\<close>

text \<open>
  C3, as the code has it. The connection delivers \<open>AB\<close> and \<open>CDE\<close>; the caller reads three
  times with a buffer of 3 bytes. The first call returns 2 bytes, \<open>AB\<close>, with \<^verbatim>\<open>io.EOF\<close>;
  the second returns 3 bytes, \<open>CDE\<close>, with nil; the third returns 0 bytes with \<^verbatim>\<open>io.EOF\<close>.
  The bytes returned, in order, are \<open>ABCDE\<close>. The trace shows the second \<^verbatim>\<open>NextReader\<close>
  after the reader of \<open>AB\<close> has reported the end of its message.
\<close>

theorem scenario_AB_CDE:
  "fst three_reads =
     [ReadResult 2 (Some EOF) (''AB'' @ [CHR 0x00]), ReadResult 3 None ''CDE'',
      ReadResult 0 (Some EOF) buf3] \<and>
   concat (map outcome_data (fst three_reads)) = ''ABCDE'' \<and>
   trace (conn_after three_reads) =
     [EvNextReader, EvRead 0 3 ''AB'' None, EvRead 0 1 [] (Some EOF),
      EvNextReader, EvRead 1 3 ''CDE'' None,
      EvRead 1 3 [] (Some EOF)]"
  by (simp add: three_reads_def buf3_def conn_AB_CDE_def conn_init_def rwc_defs io_defs
      result_defs Read_loop.simps Let_def)


text \<open>
  C3 as the specification states it has the loop of the first call go on to the next
  message because the buffer is not full. It does not: the first call returns with one
  byte of room left, its only calls were one \<^verbatim>\<open>NextReader\<close> and two reads of the reader of
  \<open>AB\<close>, and \<open>CDE\<close> is still waiting in the connection.
\<close>

theorem first_read_stops_counterexample:
  "read_data (Read buf3 (NewReadWriteCloser (Some TheConn)) conn_AB_CDE) = ''AB'' \<and>
   read_n (Read buf3 (NewReadWriteCloser (Some TheConn)) conn_AB_CDE) < length buf3 \<and>
   new_events conn_AB_CDE (conn_after (Read buf3 (NewReadWriteCloser (Some TheConn)) conn_AB_CDE)) =
     [EvNextReader, EvRead 0 3 ''AB'' None, EvRead 0 1 [] (Some EOF)] \<and>
   inbound (conn_after (Read buf3 (NewReadWriteCloser (Some TheConn)) conn_AB_CDE)) =
     [NextReaderOk [(''CDE'', None)]]"
  by (simp add: buf3_def conn_AB_CDE_def conn_init_def rwc_defs io_defs
      result_defs new_events_def Read_loop.simps Let_def)

subsection \<open>Reading is concatenation\<close>

lemma script_Read_stream:
  assumes "script_Read sc k = (bs, e, sc')" and "eof_last sc"
  shows "eof_last sc'" and "bs @ script_bytes sc' = script_bytes sc"
    and "e = Some EOF \<Longrightarrow> sc' = []" and "script_weight sc' \<le> script_weight sc"
    and "0 < k \<Longrightarrow> e \<noteq> Some EOF \<Longrightarrow> script_weight sc' < script_weight sc"
  using assms
  by (cases sc; auto simp: script_bytes_def script_weight_def split: if_splits)+

lemma reader_Read_frame:
  "reader_Read h k wd = ((bs, e), wd1) \<Longrightarrow> inbound wd1 = inbound wd"
  by (auto simp: reader_Read_def split: prod.splits)

lemma stream_step:
  assumes rd: "reader_Read h k wd = ((bs, e), wd1)" and r: "rwc_r s = Some h"
    and ok: "stream_ok s wd"
  shows "e \<noteq> Some EOF \<Longrightarrow> stream_ok s wd1"
    and "e \<noteq> Some EOF \<Longrightarrow> bs @ pending s wd1 = pending s wd"
    and "e \<noteq> Some EOF \<Longrightarrow> stream_cost s wd1 \<le> stream_cost s wd"
    and "e \<noteq> Some EOF \<Longrightarrow> 0 < k \<Longrightarrow> stream_cost s wd1 < stream_cost s wd"
    and "e = Some EOF \<Longrightarrow> stream_ok (Read_clear h s) wd1"
    and "e = Some EOF \<Longrightarrow> bs @ pending (Read_clear h s) wd1 = pending s wd"
    and "e = Some EOF \<Longrightarrow> stream_cost (Read_clear h s) wd1 < stream_cost s wd"
proof -
  have sr: "script_Read (reader_script_of wd h) k = (bs, e, reader_script_of wd1 h)"
    using rd by (rule reader_script_of_Read)
  have el: "eof_last (reader_script_of wd h)" using ok r by (simp add: stream_ok_def)
  note S = script_Read_stream [OF sr el]
  note F = reader_Read_frame [OF rd]
  show "e \<noteq> Some EOF \<Longrightarrow> stream_ok s wd1"
    using ok r S(1) F by (simp add: stream_ok_def)
  show "e \<noteq> Some EOF \<Longrightarrow> bs @ pending s wd1 = pending s wd"
    using r S(2) F by (simp add: pending_def)
  show "e \<noteq> Some EOF \<Longrightarrow> stream_cost s wd1 \<le> stream_cost s wd"
    using r S(4) F by (simp add: stream_cost_def)
  show "e \<noteq> Some EOF \<Longrightarrow> 0 < k \<Longrightarrow> stream_cost s wd1 < stream_cost s wd"
    using r S(5) F by (simp add: stream_cost_def)
  show "e = Some EOF \<Longrightarrow> stream_ok (Read_clear h s) wd1"
    using ok r F by (simp add: stream_ok_def Read_clear_def)
  show "e = Some EOF \<Longrightarrow> bs @ pending (Read_clear h s) wd1 = pending s wd"
    using r S(2,3) F by (simp add: pending_def Read_clear_def script_bytes_def)
  show "e = Some EOF \<Longrightarrow> stream_cost (Read_clear h s) wd1 < stream_cost s wd"
    using r F by (simp add: stream_cost_def Read_clear_def)
qed

lemma Read_loop_stream:
  assumes "Read_loop h n p s wd = ((n', err, p'), s', wd')" and "n \<le> length p"
    and "rwc_r s = Some h" and "stream_ok s wd"
  shows "stream_ok s' wd' \<and> take n' p' @ pending s' wd' = take n p @ pending s wd \<and>
         stream_cost s' wd' \<le> stream_cost s wd \<and>
         (n < length p \<longrightarrow> stream_cost s' wd' < stream_cost s wd)"
  using assms
proof (induction h n p s wd rule: Read_loop_induct2)
  case (finished h n p s wd)
  then show ?case by (auto simp: Read_loop_done)
next
  case (broke h n p s wd bs e wd1)
  note st = stream_step [OF broke(2,5,6)]
  have len: "length bs \<le> length p - n" using reader_Read_length [OF broke(2)] .
  have res: "n' = n + length bs" "p' = fill p n bs" "wd' = wd1"
    "s' = (if e = EOF then Read_clear h s else s)"
    using broke(3) Read_loop_break [OF broke(1,2)] by simp_all
  have tk: "take n' p' = take n p @ bs" using res len broke(4) by (simp add: take_fill)
  show ?case
  proof (cases "e = EOF")
    case True
    with st(5,6,7) res tk show ?thesis by simp
  next
    case False
    with st(1,2,3,4) [of] broke(1) res tk show ?thesis by simp
  qed
next
  case (again h n p s wd bs wd1)
  note st = stream_step [OF again(2,6,7)]
  have len: "length bs \<le> length p - n" using reader_Read_length [OF again(2)] .
  with again(5) have le: "n + length bs \<le> length (fill p n bs)" by (simp add: length_fill)
  have eq: "Read_loop h (n + length bs) (fill p n bs) s wd1 = ((n', err, p'), s', wd')"
    using again(4) Read_loop_again [OF again(1,2)] by simp
  have ih: "stream_ok s' wd'"
    "take n' p' @ pending s' wd' = take (n + length bs) (fill p n bs) @ pending s wd1"
    "stream_cost s' wd' \<le> stream_cost s wd1"
    using again(3) [OF eq le again(6)] st(1) by simp_all
  have "take n' p' @ pending s' wd' = take n p @ pending s wd"
    using ih(2) st(2) len again(5) by (simp add: take_fill)
  moreover have "stream_cost s' wd' < stream_cost s wd"
    using ih(3) st(4) again(1) by simp
  ultimately show ?case using ih(1) by simp
qed


lemma NextReader_failed_stream:
  assumes "conn_NextReader wd = (Inl e, wd1)" and "rwc_r s = None" and "stream_ok s wd"
  shows "stream_ok s wd1 \<and> pending s wd1 = pending s wd \<and>
         stream_cost s wd1 \<le> stream_cost s wd \<and>
         (stream_cost s wd1 < stream_cost s wd \<or> stream_cost s wd = 0)"
  using assms
  by (auto simp: conn_NextReader_def Let_def stream_ok_def pending_def stream_cost_def
      split: list.splits next_reader.splits)

lemma NextReader_fetched_stream:
  assumes "conn_NextReader wd = (Inr h, wd1)" and "rwc_r s = None" and "stream_ok s wd"
  shows "stream_ok (s\<lparr>rwc_r := Some h\<rparr>) wd1 \<and>
         pending (s\<lparr>rwc_r := Some h\<rparr>) wd1 = pending s wd \<and>
         stream_cost (s\<lparr>rwc_r := Some h\<rparr>) wd1 < stream_cost s wd"
  using assms
  by (auto simp: conn_NextReader_def Let_def stream_ok_def pending_def stream_cost_def
      reader_script_of_def split: list.splits next_reader.splits)

lemma Read_stream:
  assumes rd: "Read p s wd = ((n, err, p'), s', wd')" and ok: "stream_ok s wd"
  shows "stream_ok s' wd' \<and> take n p' @ pending s' wd' = pending s wd \<and>
         stream_cost s' wd' \<le> stream_cost s wd \<and>
         (p \<noteq> [] \<longrightarrow> stream_cost s' wd' < stream_cost s wd \<or> stream_cost s wd = 0)"
  using rd
proof (cases rule: Read_cases)
  case closed
  with ok show ?thesis by (simp add: stream_ok_def)
next
  case (current h)
  from Read_loop_stream [OF current(3) [symmetric] _ current(2) ok] show ?thesis by simp
next
  case (failed e wd1)
  with NextReader_failed_stream [OF failed(3,2) ok] show ?thesis by simp
next
  case (fetched h wd1)
  note nr = NextReader_fetched_stream [OF fetched(3,2) ok]
  have "rwc_r (s\<lparr>rwc_r := Some h\<rparr>) = Some h" by simp
  from Read_loop_stream [OF fetched(4) [symmetric] _ this] nr show ?thesis by auto
qed

lemma reads_stream:
  assumes "do_calls (map CallRead ps) s wd = (xs, s', wd')" and "stream_ok s wd"
  shows "stream_ok s' wd' \<and> concat (map outcome_data xs) @ pending s' wd' = pending s wd \<and>
         ([] \<notin> set ps \<longrightarrow> stream_cost s' wd' \<le> stream_cost s wd - length ps)"
  using assms
proof (induction ps arbitrary: s wd xs s' wd')
  case Nil
  then show ?case by simp
next
  case (Cons p ps)
  obtain n err p' s1 wd1 where rd: "Read p s wd = ((n, err, p'), s1, wd1)"
    by (metis prod.exhaust)
  obtain ys s2 wd2 where rest: "do_calls (map CallRead ps) s1 wd1 = (ys, s2, wd2)"
    by (metis prod.exhaust)
  from Cons.prems(1) rd rest have res: "xs = ReadResult n err p' # ys" "s' = s2" "wd' = wd2"
    by simp_all
  note one = Read_stream [OF rd Cons.prems(2)]
  from one have ok1: "stream_ok s1 wd1" by simp
  note ih = Cons.IH [OF rest ok1]
  have "concat (map outcome_data xs) @ pending s' wd' = pending s wd"
    using res one ih by simp
  moreover have "[] \<notin> set (p # ps) \<longrightarrow> stream_cost s' wd' \<le> stream_cost s wd - length (p # ps)"
    using res one ih by auto
  ultimately show ?case using ih res by simp
qed

lemma next_reader_cost_0: "sum_list (map next_reader_cost xs) = 0 \<Longrightarrow> xs = []"
proof (cases xs)
  case Nil
  then show ?thesis by simp
next
  case (Cons x ys)
  assume "sum_list (map next_reader_cost xs) = 0"
  with Cons show ?thesis by (cases x) simp_all
qed

lemma stream_cost_0:
  assumes "stream_cost s wd = 0"
  shows "pending s wd = []"
proof -
  from assms have r: "rwc_r s = None" and "sum_list (map next_reader_cost (inbound wd)) = 0"
    by (simp_all add: stream_cost_def split: option.splits)
  then have "inbound wd = []" by (simp only: next_reader_cost_0)
  with r show ?thesis by (simp add: pending_def)
qed

lemma next_reader_msg_ok: "next_reader_msg x \<Longrightarrow> next_reader_ok x"
  by (cases x) simp_all

lemma delivers_stream:
  "delivers wd msgs \<Longrightarrow> stream_ok (NewReadWriteCloser (Some c)) wd \<and>
     pending (NewReadWriteCloser (Some c)) wd = concat msgs"
  by (auto simp: delivers_def stream_ok_def pending_def NewReadWriteCloser_def list_all_iff
      intro: next_reader_msg_ok)

text \<open>
  C5, as the code has it: the part on the bytes. The adapter is new and its connection
  delivers the messages \<open>msgs\<close>, in any chunks.
  Whatever buffers a sequence of reads is given, the bytes the reads return, in order,
  followed by the bytes still to come, are the concatenation of \<open>msgs\<close>: nothing is lost,
  repeated or reordered. So the bytes returned
  are the whole concatenation as soon as nothing is still to come, and that is the case
  after \<open>stream_cost\<close> reads with non-empty buffers, of whatever sizes.
\<close>

theorem Read_deframes:
  assumes "delivers wd msgs"
    and "do_calls (map CallRead ps) (NewReadWriteCloser (Some c)) wd = (xs, s', wd')"
  shows "concat (map outcome_data xs) @ pending s' wd' = concat msgs \<and>
         (pending s' wd' = [] \<longrightarrow> concat (map outcome_data xs) = concat msgs) \<and>
         ([] \<notin> set ps \<and> stream_cost (NewReadWriteCloser (Some c)) wd \<le> length ps \<longrightarrow>
            concat (map outcome_data xs) = concat msgs)"
proof -
  note d = delivers_stream [OF assms(1), of c]
  note r = reads_stream [OF assms(2)]
  from d r have cons: "concat (map outcome_data xs) @ pending s' wd' = concat msgs" by simp
  moreover have "pending s' wd' = []"
    if "[] \<notin> set ps" "stream_cost (NewReadWriteCloser (Some c)) wd \<le> length ps"
  proof -
    from d r that have "stream_cost s' wd' = 0" by simp
    then show ?thesis by (rule stream_cost_0)
  qed
  ultimately show ?thesis by auto
qed


theorem Read_deframes_witness:
  "delivers conn_AB_CDE [''AB'', ''CDE''] \<and> [] \<notin> set various_bufs \<and>
   stream_cost (NewReadWriteCloser (Some TheConn)) conn_AB_CDE \<le> length various_bufs \<and>
   concat (map outcome_data (fst (do_calls (map CallRead various_bufs)
      (NewReadWriteCloser (Some TheConn)) conn_AB_CDE))) = ''ABCDE''"
proof -
  let ?x = "do_calls (map CallRead various_bufs) (NewReadWriteCloser (Some TheConn)) conn_AB_CDE"
  have d: "delivers conn_AB_CDE [''AB'', ''CDE'']"
    by (simp add: delivers_def conn_AB_CDE_def conn_init_def script_bytes_def)
  have n: "[] \<notin> set various_bufs" by (simp add: various_bufs_def)
  have c: "stream_cost (NewReadWriteCloser (Some TheConn)) conn_AB_CDE \<le> length various_bufs"
    by (simp add: stream_cost_def NewReadWriteCloser_def conn_AB_CDE_def conn_init_def
        script_weight_def various_bufs_def)
  have x: "?x = (fst ?x, fst (snd ?x), snd (snd ?x))" by simp
  from Read_deframes [OF d x] d n c show ?thesis by simp
qed

text \<open>
  C5 as the specification states it has the reads hide the message boundaries. They do
  not: two connections deliver the same five bytes, one as \<open>AB\<close> and \<open>CDE\<close>, the other as
  \<open>ABC\<close> and \<open>DE\<close>, and three reads with a buffer of 3 bytes return different counts and
  errors on the two.
\<close>

theorem framing_shows_counterexample:
  "delivers conn_AB_CDE [''AB'', ''CDE''] \<and> delivers conn_ABC_DE [''ABC'', ''DE''] \<and>
   concat [''AB'', ''CDE''] = concat [''ABC'', ''DE''] \<and>
   fst (do_calls [CallRead buf3, CallRead buf3, CallRead buf3]
          (NewReadWriteCloser (Some TheConn)) conn_AB_CDE) =
     [ReadResult 2 (Some EOF) (''AB'' @ [CHR 0x00]), ReadResult 3 None ''CDE'',
      ReadResult 0 (Some EOF) buf3] \<and>
   fst (do_calls [CallRead buf3, CallRead buf3, CallRead buf3]
          (NewReadWriteCloser (Some TheConn)) conn_ABC_DE) =
     [ReadResult 3 None ''ABC'', ReadResult 0 (Some EOF) buf3,
      ReadResult 2 (Some EOF) (''DE'' @ [CHR 0x00])]"
  by (simp add: delivers_def script_bytes_def buf3_def conn_AB_CDE_def conn_ABC_DE_def
      conn_init_def rwc_defs io_defs Read_loop.simps Let_def)


subsection \<open>A write error inside the loop of Write\<close>

text \<open>
  C1. The claim: when the message writer fails partway through the buffer, \<open>Write\<close> stops,
  closes the message writer and returns the count together with that error. The code at
  such an input: the writer takes 2 of the 5 bytes of \<open>hello\<close> and fails. \<open>Write\<close> stops,
  but it returns \<open>(2, nil)\<close>, the writer is neither closed nor forgotten, and no message
  is sent: the error lives in the loop body's own \<open>err\<close> (line 104) and line 110 tests
  the other one.
\<close>

theorem Write_loop_error_is_dropped:
  "(case Write ''hello'' (NewReadWriteCloser (Some TheConn))
           (conn_init [] [NextWriterOk [(2, Some (ErrTransport 1))] None] None) of
      ((n, err), s, wd) \<Rightarrow>
        n = 2 \<and> err = None \<and> rwc_w s = Some 0 \<and> sent wd = [] \<and>
        trace wd = [EvNextWriter TextMessage, EvWrite 0 ''hello''])"
  by (simp add: conn_init_def io_defs rwc_defs Write_loop.simps Let_def)


subsection \<open>One message for each write\<close>

lemma Write_loop_done: "\<not> n < length p \<Longrightarrow> Write_loop h n p wd = (n, wd)"
  by (simp add: Write_loop.simps)

lemma Write_loop_again:
  "n < length p \<Longrightarrow> writer_Write h (drop n p) wd = ((m, None), wd1) \<Longrightarrow>
   Write_loop h n p wd = Write_loop h (n + m) p wd1"
  by (simp add: Write_loop.simps [of h n p wd])

lemma Write_loop_break:
  "n < length p \<Longrightarrow> writer_Write h (drop n p) wd = ((m, Some e), wd1) \<Longrightarrow>
   Write_loop h n p wd = (n + m, wd1)"
  by (simp add: Write_loop.simps [of h n p wd])

lemma Write_loop_induct2 [case_names finished broke again]:
  fixes P :: "nat \<Rightarrow> nat \<Rightarrow> byte list \<Rightarrow> conn \<Rightarrow> bool"
  assumes "\<And>h n p wd. \<not> n < length p \<Longrightarrow> P h n p wd"
    and "\<And>h n p wd m e wd1.
           n < length p \<Longrightarrow> writer_Write h (drop n p) wd = ((m, Some e), wd1) \<Longrightarrow> P h n p wd"
    and "\<And>h n p wd m wd1.
           n < length p \<Longrightarrow> writer_Write h (drop n p) wd = ((m, None), wd1) \<Longrightarrow>
           P h (n + m) p wd1 \<Longrightarrow> P h n p wd"
  shows "P h n p wd"
proof (induction h n p wd rule: Write_loop.induct)
  case (1 h n p wd)
  show ?case
  proof (cases "n < length p")
    case False
    then show ?thesis by (rule assms(1))
  next
    case True
    obtain m err wd1 where wr: "writer_Write h (drop n p) wd = ((m, err), wd1)"
      by (metis prod.exhaust)
    show ?thesis
    proof (cases err)
      case None
      with wr have wr': "writer_Write h (drop n p) wd = ((m, None), wd1)" by simp
      have "P h (n + m) p wd1"
        using "1.IH" [OF True wr [symmetric] refl] None by simp
      with assms(3) [OF True wr'] show ?thesis .
    next
      case (Some e)
      with wr have "writer_Write h (drop n p) wd = ((m, Some e), wd1)" by simp
      with assms(2) [OF True] show ?thesis .
    qed
  qed
qed

lemma writer_Write_live:
  assumes "writer_Write h b wd = ((m, e), wd1)" and "latch wd" and "live wd h t ce buf"
  shows "latch wd1" and "sent wd1 = sent wd" and "m \<le> length b"
    and "e = None \<Longrightarrow> live wd1 h t ce (buf @ take m b)"
    and "e \<noteq> None \<Longrightarrow> failed wd1 h"
  using assms
  by (auto simp: writer_Write_def live_def failed_def Let_def min_def
      split: list.splits if_splits)

lemma writer_Write_failed:
  assumes "writer_Write h b wd = ((m, e), wd1)" and "latch wd" and "failed wd h"
  shows "m = 0" and "e \<noteq> None" and "latch wd1" and "sent wd1 = sent wd"
    and "writers wd1 = writers wd"
  using assms
  by (auto simp: writer_Write_def failed_def Let_def split: option.splits)

lemma Write_loop_live:
  assumes "Write_loop h n p wd = (n', wd')" and "latch wd" and "live wd h t ce buf"
    and "n \<le> length p"
  shows "latch wd' \<and> sent wd' = sent wd \<and>
         (n' = length p \<and> live wd' h t ce (buf @ drop n p) \<or> failed wd' h)"
  using assms
proof (induction h n p wd arbitrary: buf rule: Write_loop_induct2)
  case (finished h n p wd)
  then show ?case by (simp add: Write_loop_done)
next
  case (broke h n p wd m e wd1)
  from writer_Write_live [OF broke(2,4,5)] broke(3) Write_loop_break [OF broke(1,2)]
  show ?case by simp
next
  case (again h n p wd m wd1)
  note w = writer_Write_live [OF again(2,5,6)]
  have eq: "Write_loop h (n + m) p wd1 = (n', wd')"
    using again(4) Write_loop_again [OF again(1,2)] by simp
  have le: "n + m \<le> length p" using w(3) again(1) by simp
  have "buf @ take m (drop n p) @ drop (n + m) p = buf @ drop n p"
    by (metis add.commute append_take_drop_id drop_drop)
  with again(3) [OF eq w(1) w(4) [OF refl] le] w(2) show ?case by simp
qed

lemma Write_loop_failed:
  assumes "Write_loop h n p wd = (n', wd')" and "latch wd" and "failed wd h"
  shows "n' = n \<and> latch wd' \<and> sent wd' = sent wd \<and> writers wd' = writers wd"
proof (cases "n < length p")
  case False
  with assms show ?thesis by (simp add: Write_loop_done)
next
  case True
  obtain m e wd1 where wr: "writer_Write h (drop n p) wd = ((m, e), wd1)"
    by (metis prod.exhaust)
  note f = writer_Write_failed [OF wr assms(2,3)]
  from f(2) obtain x where "e = Some x" by auto
  with wr Write_loop_break [OF True, of h wd m x wd1] assms(1) f show ?thesis by simp
qed


lemma writer_Close_failed:
  assumes "writer_Close h wd = (e, wd1)" and "latch wd" and "failed wd h"
  shows "e \<noteq> None" and "latch wd1" and "sent wd1 = sent wd"
  using assms
  by (auto simp: writer_Close_def failed_def Let_def split: option.splits)

lemma writer_Close_live:
  assumes "writer_Close h wd = (e, wd1)" and "live wd h t ce buf"
  shows "e = ce" and "latch wd1 = latch wd"
    and "sent wd1 = sent wd @ (if e = None then [(t, buf)] else [])"
  using assms
  by (auto simp: writer_Close_def live_def Let_def)

lemma no_live_writer_iff:
  "no_live_writer s wd = (latch wd \<and> (\<forall>h. rwc_w s = Some h \<longrightarrow> failed wd h))"
  by (auto simp: no_live_writer_def failed_def split: option.splits)

lemma Write_rest_failed:
  assumes "Write_rest h p s wd = ((n, err), s', wd')" and "latch wd" and "failed wd h"
    and "rwc_w s = Some h"
  shows "no_live_writer s' wd' \<and> sent wd' = sent wd \<and> \<not> (n = length p \<and> err = None)"
proof -
  obtain n1 wd1 where lp: "Write_loop h 0 p wd = (n1, wd1)" by (metis prod.exhaust)
  note f = Write_loop_failed [OF lp assms(2,3)]
  have f1: "failed wd1 h" using f assms(3) by (simp add: failed_def)
  show ?thesis
  proof (cases "n1 = length p")
    case False
    with assms(1) lp have "n = n1" "err = None" "s' = s" "wd' = wd1"
      by (simp_all add: Write_rest_def)
    with False f f1 assms(4) show ?thesis by (simp add: no_live_writer_iff)
  next
    case True
    obtain ce wd2 where cl: "writer_Close h wd1 = (ce, wd2)" by (metis prod.exhaust)
    note c = writer_Close_failed [OF cl _ f1]
    from assms(1) lp cl True have "err = ce" "s' = Write_clear h s" "wd' = wd2"
      by (simp_all add: Write_rest_def)
    with c f assms(4) show ?thesis by (simp add: no_live_writer_iff Write_clear_def)
  qed
qed

lemma Write_rest_live:
  assumes "Write_rest h p s wd = ((n, err), s', wd')" and "latch wd"
    and "live wd h TextMessage ce []" and "rwc_w s = Some h"
  shows "no_live_writer s' wd' \<and>
         sent wd' = sent wd @ (if n = length p \<and> err = None then [(TextMessage, p)] else [])"
proof -
  obtain n1 wd1 where lp: "Write_loop h 0 p wd = (n1, wd1)" by (metis prod.exhaust)
  from Write_loop_live [OF lp assms(2,3)]
  have l: "latch wd1" "sent wd1 = sent wd"
    "n1 = length p \<and> live wd1 h TextMessage ce p \<or> failed wd1 h"
    by simp_all
  show ?thesis
  proof (cases "n1 = length p")
    case False
    with assms(1) lp have r: "n = n1" "err = None" "s' = s" "wd' = wd1"
      by (simp_all add: Write_rest_def)
    from False l(3) have "failed wd1 h" by simp
    with r False l assms(4) show ?thesis by (simp add: no_live_writer_iff)
  next
    case True
    obtain e wd2 where cl: "writer_Close h wd1 = (e, wd2)" by (metis prod.exhaust)
    from assms(1) lp cl True have r: "n = n1" "err = e" "s' = Write_clear h s" "wd' = wd2"
      by (simp_all add: Write_rest_def)
    have nl: "rwc_w s' = None" using r(3) assms(4) by (simp add: Write_clear_def)
    from l(3) show ?thesis
    proof
      assume "n1 = length p \<and> live wd1 h TextMessage ce p"
      then have lv: "live wd1 h TextMessage ce p" by simp
      from writer_Close_live [OF cl lv] l r True nl show ?thesis
        by (simp add: no_live_writer_iff)
    next
      assume fl: "failed wd1 h"
      from writer_Close_failed [OF cl l(1) fl] l r nl show ?thesis
        by (simp add: no_live_writer_iff)
    qed
  qed
qed

lemma conn_NextWriter_new:
  assumes "conn_NextWriter t wd = (Inr h, wd1)"
  shows "\<exists>ce. live wd1 h t ce []" and "latch wd1 = latch wd" and "sent wd1 = sent wd"
  using assms
  by (auto simp: conn_NextWriter_def live_def Let_def split: list.splits next_writer.splits)

lemma conn_NextWriter_fail:
  assumes "conn_NextWriter t wd = (Inl e, wd1)"
  shows "writers wd1 = writers wd" and "latch wd1 = latch wd" and "sent wd1 = sent wd"
  using assms
  by (auto simp: conn_NextWriter_def Let_def split: list.splits next_writer.splits)

lemma Write_sent:
  assumes "Write p s wd = ((n, err), s', wd')" and "no_live_writer s wd"
  shows "no_live_writer s' wd' \<and>
         sent wd' = sent wd @ (if n = length p \<and> err = None then [(TextMessage, p)] else [])"
proof (cases "rwc_ws s")
  case None
  with assms show ?thesis by (auto simp: Write_def)
next
  case (Some c)
  from assms(2) have lt: "latch wd" by (simp add: no_live_writer_iff)
  show ?thesis
  proof (cases "rwc_w s")
    case stale: (Some h)
    with Some assms(1) have "Write_rest h p s wd = ((n, err), s', wd')"
      by (simp add: Write_def)
    from Write_rest_failed [OF this lt _ stale] assms(2) stale show ?thesis
      by (simp add: no_live_writer_iff)
  next
    case None
    obtain y wd1 where nw: "conn_NextWriter TextMessage wd = (y, wd1)" by (metis prod.exhaust)
    show ?thesis
    proof (cases y)
      case (Inl e)
      with Some None nw assms(1) have "n = 0" "err = Some e" "s' = s" "wd' = wd1"
        by (simp_all add: Write_def)
      with conn_NextWriter_fail [of TextMessage wd e wd1] nw Inl None lt show ?thesis
        by (simp add: no_live_writer_iff)
    next
      case (Inr h)
      with nw have nw': "conn_NextWriter TextMessage wd = (Inr h, wd1)" by simp
      from conn_NextWriter_new [OF nw'] lt obtain ce where
        lv: "live wd1 h TextMessage ce []" and l1: "latch wd1" and s1: "sent wd1 = sent wd"
        by auto
      from Some None nw' assms(1)
      have "Write_rest h p (s\<lparr>rwc_w := Some h\<rparr>) wd1 = ((n, err), s', wd')"
        by (simp add: Write_def Write_store_def)
      from Write_rest_live [OF this l1 lv] s1 show ?thesis by simp
    qed
  qed
qed


lemma reader_Read_out: "reader_Read h k wd = (x, wd1) \<Longrightarrow> same_out wd wd1"
  by (auto simp: reader_Read_def same_out_def split: prod.splits)

lemma conn_NextReader_out: "conn_NextReader wd = (x, wd1) \<Longrightarrow> same_out wd wd1"
  by (auto simp: conn_NextReader_def same_out_def Let_def split: list.splits next_reader.splits)

lemma same_out_trans: "same_out a b \<Longrightarrow> same_out b c \<Longrightarrow> same_out a c"
  by (simp add: same_out_def)

lemma Read_loop_out:
  "Read_loop h n p s wd = (x, s', wd') \<Longrightarrow> same_out wd wd' \<and> rwc_w s' = rwc_w s"
proof (induction h n p s wd rule: Read_loop_induct2)
  case (finished h n p s wd)
  then show ?case by (simp add: Read_loop_done same_out_def)
next
  case (broke h n p s wd bs e wd1)
  from broke(3) Read_loop_break [OF broke(1,2), of s] reader_Read_out [OF broke(2)]
  show ?case by (auto simp: Read_clear_def)
next
  case (again h n p s wd bs wd1)
  from again(4) Read_loop_again [OF again(1,2), of s]
  have "Read_loop h (n + length bs) (fill p n bs) s wd1 = (x, s', wd')" by simp
  from again(3) [OF this] reader_Read_out [OF again(2)] show ?case
    by (auto intro: same_out_trans)
qed

lemma Read_out:
  assumes "Read p s wd = (x, s', wd')"
  shows "same_out wd wd' \<and> rwc_w s' = rwc_w s"
  using assms
proof (cases rule: Read_cases)
  case closed
  then show ?thesis by (simp add: same_out_def)
next
  case (current h)
  from Read_loop_out [OF current(3) [symmetric]] show ?thesis .
next
  case (failed e wd1)
  with conn_NextReader_out [OF failed(3)] show ?thesis by simp
next
  case (fetched h wd1)
  from Read_loop_out [OF fetched(4) [symmetric]] conn_NextReader_out [OF fetched(3)]
  show ?thesis by (auto intro: same_out_trans)
qed

lemma Read_sent:
  assumes "Read p s wd = (x, s', wd')" and "no_live_writer s wd"
  shows "no_live_writer s' wd' \<and> sent wd' = sent wd"
  using Read_out [OF assms(1)] assms(2)
  by (auto simp: no_live_writer_iff same_out_def failed_def)

lemma Close_sent:
  assumes "Close s wd = (e, s', wd')" and "no_live_writer s wd"
  shows "no_live_writer s' wd' \<and> sent wd' = sent wd"
proof -
  from assms(2) have lt: "latch wd" by (simp add: no_live_writer_iff)
  have cc: "Close_conn ws t cn = (e', t', cn') \<Longrightarrow> latch cn' = latch cn \<and> sent cn' = sent cn \<and> t' = t"
    for ws t cn e' t' cn'
    by (auto simp: Close_conn_def conn_Close_def split: option.splits)
  have ac: "rwc_w s' = None" using Close_makes_all_clear [OF assms(1)] by (simp add: all_clear_def)
  show ?thesis
  proof (cases "rwc_w s")
    case None
    with assms(1) cc lt ac show ?thesis
      by (auto simp: Close_def Close_take_def no_live_writer_iff)
  next
    case (Some h)
    with assms(2) have f: "failed wd h" by (simp add: no_live_writer_iff)
    obtain ce wd1 where cl: "writer_Close h wd = (ce, wd1)" by (metis prod.exhaust)
    note c = writer_Close_failed [OF cl lt f]
    from c(1) obtain x where "ce = Some x" by auto
    with assms(1) Some cl have "wd' = wd1" by (simp add: Close_def Close_take_def)
    with c ac show ?thesis by (simp add: no_live_writer_iff)
  qed
qed

lemma do_call_sent:
  assumes "do_call c s wd = (x, s', wd')" and "no_live_writer s wd"
  shows "no_live_writer s' wd' \<and> sent wd' = sent wd @ written [c] [x]"
proof (cases c)
  case (CallRead p)
  obtain r s1 wd1 where rd: "Read p s wd = (r, s1, wd1)" by (metis prod.exhaust)
  with CallRead assms(1) Read_sent [OF rd assms(2)] show ?thesis
    by (auto split: prod.splits)
next
  case (CallWrite p)
  obtain n err s1 wd1 where wr: "Write p s wd = ((n, err), s1, wd1)" by (metis prod.exhaust)
  with CallWrite assms(1) Write_sent [OF wr assms(2)] show ?thesis by auto
next
  case CallClose
  obtain e s1 wd1 where cl: "Close s wd = (e, s1, wd1)" by (metis prod.exhaust)
  with CallClose assms(1) Close_sent [OF cl assms(2)] show ?thesis by auto
qed

lemma written_Cons: "written (c # cs) (x # xs) = written [c] [x] @ written cs xs"
  by (cases c; cases x) simp_all

lemma do_calls_sent:
  assumes "do_calls cs s wd = (xs, s', wd')" and "no_live_writer s wd"
  shows "no_live_writer s' wd' \<and> sent wd' = sent wd @ written cs xs"
  using assms
proof (induction cs arbitrary: s wd xs s' wd')
  case Nil
  then show ?case by simp
next
  case (Cons c cs)
  obtain x s1 wd1 where one: "do_call c s wd = (x, s1, wd1)" by (metis prod.exhaust)
  obtain ys s2 wd2 where rest: "do_calls cs s1 wd1 = (ys, s2, wd2)" by (metis prod.exhaust)
  from Cons.prems(1) one rest have res: "xs = x # ys" "s' = s2" "wd' = wd2" by simp_all
  note a = do_call_sent [OF one Cons.prems(2)]
  from a have "no_live_writer s1 wd1" by simp
  from Cons.IH [OF rest this] a res show ?case
    by (simp add: written_Cons [of c cs x ys])
qed

text \<open>
  C4. On a connection whose writers keep their first error, for every sequence of calls
  on a new adapter: the messages sent during the sequence are, in order, one text message
  for each \<open>Write\<close> that returned \<^verbatim>\<open>(len(p), nil)\<close>, made of exactly the bytes of that call's
  buffer. No other call sends a message, and no message holds bytes of two calls. The
  writer that the defect of C1 leaves open does not break this: it takes no further byte,
  and closing it sends nothing.
\<close>

theorem full_Write_one_message:
  assumes "latch wd" and "do_calls cs (NewReadWriteCloser ws) wd = (xs, s', wd')"
  shows "sent wd' = sent wd @ written cs xs"
proof -
  have "no_live_writer (NewReadWriteCloser ws) wd"
    using assms(1) by (simp add: no_live_writer_def NewReadWriteCloser_def)
  from do_calls_sent [OF assms(2) this] show ?thesis by simp
qed

theorem full_Write_one_message_witness:
  "latch conn_two_writers \<and>
   fst (do_calls four_writes (NewReadWriteCloser (Some TheConn)) conn_two_writers) =
     [WriteResult 5 None, WriteResult 1 None, WriteResult 0 None,
      WriteResult 0 (Some (ErrTransport 1))] \<and>
   sent (snd (snd (do_calls four_writes (NewReadWriteCloser (Some TheConn)) conn_two_writers))) =
     [(TextMessage, ''hello'')]"
proof -
  let ?x = "do_calls four_writes (NewReadWriteCloser (Some TheConn)) conn_two_writers"
  have l: "latch conn_two_writers" and s0: "sent conn_two_writers = []"
    by (simp_all add: conn_two_writers_def conn_init_def)
  have x: "?x = (fst ?x, fst (snd ?x), snd (snd ?x))" by simp
  have r: "fst ?x = [WriteResult 5 None, WriteResult 1 None, WriteResult 0 None,
      WriteResult 0 (Some (ErrTransport 1))]"
    by (simp add: four_writes_def conn_two_writers_def conn_init_def io_defs rwc_defs
        Write_loop.simps Let_def)
  from full_Write_one_message [OF l x] l s0 r show ?thesis by (simp add: four_writes_def)
qed


subsection \<open>Writing an empty buffer\<close>

lemma Write_loop_empty: "Write_loop h 0 [] wd = (0, wd)"
  by (simp add: Write_loop.simps)

text \<open>
  C10. \<open>Write\<close> with an empty buffer, on an open adapter with no writer open, when
  \<^verbatim>\<open>NextWriter\<close> and the writer's \<^verbatim>\<open>Close\<close> succeed: the adapter asks for a text-message
  writer and closes it at once, which sends one empty text message; the result is
  \<open>(0, nil)\<close> and the adapter is as before, with no writer open.
\<close>

theorem Write_empty_buffer:
  assumes "rwc_ws s \<noteq> None" and "rwc_w s = None" and "next_writer_closes_ok wd"
  shows "case Write [] s wd of
           ((n, err), s1, wd1) \<Rightarrow>
             n = 0 \<and> err = None \<and> s1 = s \<and>
             sent wd1 = sent wd @ [(TextMessage, [])] \<and>
             trace wd1 = trace wd @ [EvNextWriter TextMessage, EvWriterClose (fresh wd)]"
  using assms
  by (auto simp: Write_def Write_rest_def Write_store_def Write_clear_def Write_loop_empty
      next_writer_closes_ok_def conn_NextWriter_def writer_Close_def Let_def
      split: list.splits next_writer.splits)

theorem Write_empty_buffer_witness:
  "rwc_ws (NewReadWriteCloser (Some TheConn)) \<noteq> None \<and>
   rwc_w (NewReadWriteCloser (Some TheConn)) = None \<and>
   next_writer_closes_ok (conn_init [] [] None) \<and>
   (case Write [] (NewReadWriteCloser (Some TheConn)) (conn_init [] [] None) of
      ((n, err), s1, wd1) \<Rightarrow>
        n = 0 \<and> err = None \<and> s1 = NewReadWriteCloser (Some TheConn) \<and>
        sent wd1 = [(TextMessage, [])] \<and>
        trace wd1 = [EvNextWriter TextMessage, EvWriterClose 0])"
proof -
  have a: "rwc_ws (NewReadWriteCloser (Some TheConn)) \<noteq> None"
    and b: "rwc_w (NewReadWriteCloser (Some TheConn)) = None"
    and c: "next_writer_closes_ok (conn_init [] [] None)"
    by (simp_all add: NewReadWriteCloser_def next_writer_closes_ok_def conn_init_def)
  from Write_empty_buffer [OF a b c] a b c show ?thesis
    by (simp add: conn_init_def split: prod.splits)
qed

subsection \<open>The order of teardown in Close\<close>

text \<open>
  C7. \<open>Close\<close> with a writer open closes the writer first. If that fails, the failure is
  the result and the writer's close is the only call made: the connection is not closed.
  If it succeeds, or no writer was open, a connection that is present is closed next and
  the result of \<open>Close\<close> is the result of closing it. With neither a writer nor a
  connection, \<open>Close\<close> returns nil and makes no call.
\<close>

theorem Close_order:
  assumes "Close s wd = (err, s1, wd1)"
  shows
    "(\<forall>h e. rwc_w s = Some h \<and> fst (writer_Close h wd) = Some e \<longrightarrow>
        err = Some e \<and> trace wd1 = trace wd @ [EvWriterClose h]) \<and>
     (\<forall>h. rwc_w s = Some h \<and> fst (writer_Close h wd) = None \<and> rwc_ws s \<noteq> None \<longrightarrow>
        err = close_result wd \<and> trace wd1 = trace wd @ [EvWriterClose h, EvConnClose]) \<and>
     (\<forall>h. rwc_w s = Some h \<and> fst (writer_Close h wd) = None \<and> rwc_ws s = None \<longrightarrow>
        err = None \<and> trace wd1 = trace wd @ [EvWriterClose h]) \<and>
     (rwc_w s = None \<and> rwc_ws s \<noteq> None \<longrightarrow>
        err = close_result wd \<and> trace wd1 = trace wd @ [EvConnClose]) \<and>
     (rwc_w s = None \<and> rwc_ws s = None \<longrightarrow> err = None \<and> wd1 = wd)"
  using assms
  by (auto simp: Close_def Close_take_def Close_conn_def conn_Close_def writer_Close_def Let_def
      split: option.splits prod.splits)

theorem Close_order_witness:
  "rwc_w rwc_writing = Some 0 \<and>
   fst (writer_Close 0 (conn_one_writer (Some (ErrTransport 2)) (Some (ErrTransport 3)))) =
     Some (ErrTransport 2) \<and>
   fst (Close rwc_writing (conn_one_writer (Some (ErrTransport 2)) (Some (ErrTransport 3)))) =
     Some (ErrTransport 2) \<and>
   trace (snd (snd (Close rwc_writing
       (conn_one_writer (Some (ErrTransport 2)) (Some (ErrTransport 3)))))) = [EvWriterClose 0] \<and>
   fst (writer_Close 0 (conn_one_writer None (Some (ErrTransport 3)))) = None \<and>
   rwc_ws rwc_writing \<noteq> None \<and>
   fst (Close rwc_writing (conn_one_writer None (Some (ErrTransport 3)))) =
     Some (ErrTransport 3) \<and>
   trace (snd (snd (Close rwc_writing (conn_one_writer None (Some (ErrTransport 3)))))) =
     [EvWriterClose 0, EvConnClose]"
proof -
  let ?bad = "conn_one_writer (Some (ErrTransport 2)) (Some (ErrTransport 3))"
  let ?good = "conn_one_writer None (Some (ErrTransport 3))"
  have w: "rwc_w rwc_writing = Some 0" and c: "rwc_ws rwc_writing \<noteq> None"
    by (simp_all add: rwc_writing_def)
  have f: "fst (writer_Close 0 ?bad) = Some (ErrTransport 2)"
    and g: "fst (writer_Close 0 ?good) = None"
    by (simp_all add: conn_one_writer_def conn_init_def writer_Close_def)
  have t: "trace ?bad = []" "trace ?good = []" "close_result ?good = Some (ErrTransport 3)"
    by (simp_all add: conn_one_writer_def conn_init_def)
  from Close_order [of rwc_writing ?bad "fst (Close rwc_writing ?bad)"
      "fst (snd (Close rwc_writing ?bad))" "snd (snd (Close rwc_writing ?bad))"]
    Close_order [of rwc_writing ?good "fst (Close rwc_writing ?good)"
      "fst (snd (Close rwc_writing ?good))" "snd (snd (Close rwc_writing ?good))"]
    w c f g t
  show ?thesis by simp
qed

subsection \<open>After Close has returned\<close>

text \<open>
  C6. Once a \<open>Close\<close> has returned, with an error or without, and after any further
  calls, a \<open>Read\<close> and a \<open>Write\<close> return \<^verbatim>\<open>io.ErrClosedPipe\<close> with count 0 and leave the
  buffer, the adapter and the connection as they were; the connection's trace is part of
  it, so no call into the WebSocket library was made, neither by them nor by the calls
  in between.
\<close>

theorem closed_after_Close:
  assumes "Close s wd = (e, s1, wd1)" and "do_calls cs s1 wd1 = (xs, s2, wd2)"
  shows "Read p s2 wd2 = ((0, Some ErrClosedPipe, p), s2, wd2) \<and>
         Write q s2 wd2 = ((0, Some ErrClosedPipe), s2, wd2) \<and> wd2 = wd1"
proof -
  have c: "all_clear s1" using assms(1) by (rule Close_makes_all_clear)
  from do_calls_all_clear [OF c assms(2)] c show ?thesis
    by (simp add: Read_closed Write_closed all_clear_def)
qed

theorem closed_after_Close_witness:
  "Close (NewReadWriteCloser (Some TheConn)) (conn_init [] [] (Some (ErrTransport 7))) =
     (Some (ErrTransport 7), closed_rwc,
      (conn_init [] [] (Some (ErrTransport 7)))\<lparr>trace := [EvConnClose]\<rparr>) \<and>
   do_calls [CallWrite ''a'', CallClose, CallRead ''b''] closed_rwc
      ((conn_init [] [] (Some (ErrTransport 7)))\<lparr>trace := [EvConnClose]\<rparr>) =
     ([WriteResult 0 (Some ErrClosedPipe), CloseResult None, ReadResult 0 (Some ErrClosedPipe) ''b''],
      closed_rwc, (conn_init [] [] (Some (ErrTransport 7)))\<lparr>trace := [EvConnClose]\<rparr>) \<and>
   Read ''xyz'' closed_rwc ((conn_init [] [] (Some (ErrTransport 7)))\<lparr>trace := [EvConnClose]\<rparr>) =
     ((0, Some ErrClosedPipe, ''xyz''), closed_rwc,
      (conn_init [] [] (Some (ErrTransport 7)))\<lparr>trace := [EvConnClose]\<rparr>) \<and>
   Write ''hello'' closed_rwc ((conn_init [] [] (Some (ErrTransport 7)))\<lparr>trace := [EvConnClose]\<rparr>) =
     ((0, Some ErrClosedPipe), closed_rwc,
      (conn_init [] [] (Some (ErrTransport 7)))\<lparr>trace := [EvConnClose]\<rparr>)"
proof -
  let ?wd = "conn_init [] [] (Some (ErrTransport 7))"
  let ?wd1 = "?wd\<lparr>trace := [EvConnClose]\<rparr>"
  have c: "Close (NewReadWriteCloser (Some TheConn)) ?wd = (Some (ErrTransport 7), closed_rwc, ?wd1)"
    by (simp add: rwc_defs io_defs conn_init_def closed_rwc_def)
  have d: "do_calls [CallWrite ''a'', CallClose, CallRead ''b''] closed_rwc ?wd1 =
     ([WriteResult 0 (Some ErrClosedPipe), CloseResult None, ReadResult 0 (Some ErrClosedPipe) ''b''],
      closed_rwc, ?wd1)"
    by (simp add: rwc_defs closed_rwc_def)
  from closed_after_Close [OF c d, of "''xyz''" "''hello''"] c d show ?thesis by simp
qed



text \<open>
  C9. Once a \<open>Close\<close> has returned, and after any further calls, a \<open>Close\<close> finds neither a
  writer nor a connection, returns nil and leaves the adapter and the connection as they
  were: it closes no writer and no connection. Nor did the calls in between.
\<close>

theorem Close_after_Close:
  assumes "Close s wd = (e, s1, wd1)" and "do_calls cs s1 wd1 = (xs, s2, wd2)"
  shows "Close s2 wd2 = (None, s2, wd2) \<and> rwc_w s2 = None \<and> rwc_ws s2 = None \<and> wd2 = wd1"
proof -
  have c: "all_clear s1" using assms(1) by (rule Close_makes_all_clear)
  from do_calls_all_clear [OF c assms(2)] c show ?thesis
    by (simp add: Close_all_clear) (simp add: all_clear_def)
qed

theorem Close_after_Close_witness:
  "Close (NewReadWriteCloser (Some TheConn)) (conn_init [] [] None) =
     (None, closed_rwc, (conn_init [] [] None)\<lparr>trace := [EvConnClose]\<rparr>) \<and>
   do_calls [CallClose, CallRead ''b'', CallClose] closed_rwc
      ((conn_init [] [] None)\<lparr>trace := [EvConnClose]\<rparr>) =
     ([CloseResult None, ReadResult 0 (Some ErrClosedPipe) ''b'', CloseResult None],
      closed_rwc, (conn_init [] [] None)\<lparr>trace := [EvConnClose]\<rparr>) \<and>
   Close closed_rwc ((conn_init [] [] None)\<lparr>trace := [EvConnClose]\<rparr>) =
     (None, closed_rwc, (conn_init [] [] None)\<lparr>trace := [EvConnClose]\<rparr>)"
proof -
  let ?wd = "conn_init [] [] None"
  let ?wd1 = "?wd\<lparr>trace := [EvConnClose]\<rparr>"
  have c: "Close (NewReadWriteCloser (Some TheConn)) ?wd = (None, closed_rwc, ?wd1)"
    by (simp add: rwc_defs io_defs conn_init_def closed_rwc_def)
  have d: "do_calls [CallClose, CallRead ''b'', CallClose] closed_rwc ?wd1 =
     ([CloseResult None, ReadResult 0 (Some ErrClosedPipe) ''b'', CloseResult None],
      closed_rwc, ?wd1)"
    by (simp add: rwc_defs closed_rwc_def)
  from Close_after_Close [OF c d] c d show ?thesis by simp
qed

end
